theory Spec2Isabelle
  imports Main "HOL-Library.AList"
begin

section \<open>Data model of the DID cache (DidCacheImpl)\<close>

text \<open>
  Buffers and strings are byte sequences. \<open>VersionId\<close> and \<open>OperationHash\<close> are
  aliases of \<open>string\<close> in the source. The numbers of the source (block number,
  transaction number, operation index) are integers.
\<close>

type_synonym Buffer = string
type_synonym VersionId = string
type_synonym OperationHash = string

datatype OperationType = Create | Update | Delete | Recover

text \<open>
  The errors the code raises: \<open>throw Error(msg)\<close>, and the \<open>TypeError\<close> of the
  runtime when a property of \<open>undefined\<close> is read.
\<close>

datatype error = Error string | TypeError string

text \<open>
  The fields of a \<open>WriteOperation\<close> that the cache reads. The four fields of the
  resolved transaction are optional (\<open>undefined\<close> is \<open>None\<close>), and so is
  \<open>previousOperationHash\<close>.
\<close>

record WriteOperation =
  operationBuffer :: Buffer
  type :: OperationType
  encodedPayload :: string
  previousOperationHash :: "VersionId option"
  blockNumber :: "int option"
  transactionNumber :: "int option"
  operationIndex :: "int option"
  batchFileHash :: "string option"

text \<open>
  The resolved transaction that \<open>getOperation\<close> attaches to a reconstructed
  operation, and the anchor file that the Rooter writes.
\<close>

record ResolvedTransaction =
  blockNumber :: int
  transactionNumber :: int
  anchorFileHash :: string
  batchFileHash :: string

record AnchorFile =
  batchFileHash :: string
  merkleRoot :: string

record OperationTimestamp =
  blockNumber :: int
  transactionNumber :: int
  operationIndex :: int

definition earlier :: "OperationTimestamp \<Rightarrow> OperationTimestamp \<Rightarrow> bool" where
  "earlier ts1 ts2 =
     ((transactionNumber ts1 < transactionNumber ts2) \<or>
      (transactionNumber ts1 = transactionNumber ts2) \<and> (operationIndex ts1 < operationIndex ts2))"

record OperationInfo =
  batchFileHash :: string
  type :: OperationType
  timestamp :: OperationTimestamp

text \<open>
  A \<open>Map\<close> of the source is the list of its entries in insertion order, with distinct
  keys: \<open>get\<close> is \<open>map_of\<close>, \<open>set\<close> is \<open>AList.update\<close> (an existing key keeps its
  place, a new key goes to the end) and \<open>delete\<close> is \<open>AList.delete\<close>.
\<close>

record DidCacheImpl =
  nextVersion :: "(VersionId \<times> VersionId) list"
  opHashToInfo :: "(OperationHash \<times> OperationInfo) list"

definition newDidCache :: DidCacheImpl where
  "newDidCache = \<lparr>nextVersion = [], opHashToInfo = []\<rparr>"

text \<open>
  \<open>Map.prototype.forEach\<close> visits the entries in insertion order and calls the
  callback with the VALUE first, then the KEY, then the map. An entry deleted before
  its turn is not visited. The callbacks of this program add no entry and change no
  value, so the entries to visit are those present at the start. The callback returns
  the map after its deletions, or the error it throws.
\<close>

fun Map_forEach ::
  "('v \<Rightarrow> 'k \<Rightarrow> ('k \<times> 'v) list \<Rightarrow> (error + unit) \<times> ('k \<times> 'v) list) \<Rightarrow>
   ('k \<times> 'v) list \<Rightarrow> ('k \<times> 'v) list \<Rightarrow> (error + unit) \<times> ('k \<times> 'v) list" where
  "Map_forEach callback [] m = (Inr (), m)"
| "Map_forEach callback ((key, val) # entries) m =
     (if map_of m key = None then Map_forEach callback entries m
      else (case callback val key m of
              (Inl e, m') \<Rightarrow> (Inl e, m')
            | (Inr _, m') \<Rightarrow> Map_forEach callback entries m'))"

subsection \<open>Hashing\<close>

text \<open>
  \<open>Multihash.hash\<close> (module \<open>Multihash\<close>) and \<open>Base58.encode\<close> (library \<open>bs58\<close>) are
  the cryptographic primitives: they are parameters of the model. A string is the
  sequence of its bytes, so \<open>Buffer.from\<close> of a string is that sequence.
\<close>

record Crypto =
  Multihash_hash :: "Buffer \<Rightarrow> nat \<Rightarrow> Buffer"
  Base58_encode :: "Buffer \<Rightarrow> string"

definition Buffer_from :: "string \<Rightarrow> Buffer" where
  "Buffer_from s = s"

definition getHash :: "Crypto \<Rightarrow> WriteOperation \<Rightarrow> OperationHash" where
  "getHash K operation =
     (let sha256HashCode = 18;
          contentBuffer =
            (if WriteOperation.type operation = Create
             then Buffer_from (encodedPayload operation)
             else operationBuffer operation);
          multihash = Multihash_hash K contentBuffer sha256HashCode;
          multihashBase58 = Base58_encode K multihash
      in multihashBase58)"

subsection \<open>apply\<close>

definition applyVersionChainUpdates ::
  "DidCacheImpl \<Rightarrow> OperationHash \<Rightarrow> OperationInfo \<Rightarrow> VersionId \<Rightarrow> (error + unit) \<times> DidCacheImpl" where
  "applyVersionChainUpdates this opHash opInfo prevVersionId =
     (case map_of (nextVersion this) prevVersionId of
        None \<Rightarrow>
          (Inr (), this\<lparr>nextVersion := AList.update prevVersionId opHash (nextVersion this)\<rparr>)
      | Some curUpdateToPrevVersionId \<Rightarrow>
          (case map_of (opHashToInfo this) curUpdateToPrevVersionId of
             None \<Rightarrow> (Inl (TypeError ''timestamp of undefined''), this)
           | Some curUpdateToPrevVersionIdInfo \<Rightarrow>
               if earlier (timestamp curUpdateToPrevVersionIdInfo) (timestamp opInfo)
               then (Inr (), this)
               else (Inr (), this\<lparr>nextVersion :=
                       AList.update prevVersionId opHash (nextVersion this)\<rparr>)))"

definition InvalidOperation :: "string \<Rightarrow> error" where
  "InvalidOperation field = Error (''Invalid operation: '' @ field @ '' undefined'')"

text \<open>
  \<open>apply\<close> returns the hash, \<open>undefined\<close> (\<open>None\<close>) or throws; the cache after the
  call is the second component. \<open>if (operation.previousOperationHash)\<close> is false
  for \<open>undefined\<close> and for the empty string.
\<close>

definition apply_op ::
  "Crypto \<Rightarrow> DidCacheImpl \<Rightarrow> WriteOperation \<Rightarrow> (error + OperationHash option) \<times> DidCacheImpl" where
  "apply_op K this operation =
     (let opHash = getHash K operation in
      case WriteOperation.blockNumber operation of
        None \<Rightarrow> (Inl (InvalidOperation ''blockNumber''), this)
      | Some bn \<Rightarrow>
      (case WriteOperation.transactionNumber operation of
        None \<Rightarrow> (Inl (InvalidOperation ''transactionNumber''), this)
      | Some tn \<Rightarrow>
      (case WriteOperation.operationIndex operation of
        None \<Rightarrow> (Inl (InvalidOperation ''operationIndex''), this)
      | Some oi \<Rightarrow>
      (case WriteOperation.batchFileHash operation of
        None \<Rightarrow> (Inl (InvalidOperation ''batchFileHash''), this)
      | Some bfh \<Rightarrow>
        (let opTimestamp = \<lparr>blockNumber = bn, transactionNumber = tn, operationIndex = oi\<rparr>;
             opInfo = \<lparr>batchFileHash = bfh, type = WriteOperation.type operation,
                       timestamp = opTimestamp\<rparr>;
             prevOperationInfo = map_of (opHashToInfo this) opHash
         in if (case prevOperationInfo of
                  None \<Rightarrow> False
                | Some p \<Rightarrow> earlier (timestamp p) (timestamp opInfo))
            then (Inr None, this)
            else
              (let this1 = this\<lparr>opHashToInfo := AList.update opHash opInfo (opHashToInfo this)\<rparr>
               in case previousOperationHash operation of
                    None \<Rightarrow> (Inr (Some opHash), this1)
                  | Some prev \<Rightarrow>
                      if prev = [] then (Inr (Some opHash), this1)
                      else (case applyVersionChainUpdates this1 opHash opInfo prev of
                              (Inl e, this2) \<Rightarrow> (Inl e, this2)
                            | (Inr _, this2) \<Rightarrow> (Inr (Some opHash), this2))))))))"

subsection \<open>rollback\<close>

text \<open>
  The two loops of \<open>rollback\<close>, with the parameter names of the source. The first
  callback is \<open>(version, nextVersion, map) => ...\<close>: \<open>version\<close> is its first parameter,
  which \<open>forEach\<close> binds to the value of the entry, and \<open>nextVersion\<close> its second, bound
  to the key. The second callback is \<open>(opInfo, opHash, map) => ...\<close>. Reading
  \<open>opInfo.timestamp\<close> of an \<open>undefined\<close> \<open>opInfo\<close> throws a \<open>TypeError\<close>, which leaves
  the maps as they are at that point.
\<close>

definition rollback :: "DidCacheImpl \<Rightarrow> int \<Rightarrow> (error + unit) \<times> DidCacheImpl" where
  "rollback this transactionNumber' =
     (case Map_forEach
             (\<lambda>version nextVersion' m.
                case map_of (opHashToInfo this) nextVersion' of
                  None \<Rightarrow> (Inl (TypeError ''timestamp of undefined''), m)
                | Some opInfo \<Rightarrow>
                    if transactionNumber (timestamp opInfo) \<ge> transactionNumber'
                    then (Inr (), AList.delete version m)
                    else (Inr (), m))
             (nextVersion this) (nextVersion this) of
        (Inl e, nv) \<Rightarrow> (Inl e, this\<lparr>nextVersion := nv\<rparr>)
      | (Inr _, nv) \<Rightarrow>
          (let this1 = this\<lparr>nextVersion := nv\<rparr>
           in case Map_forEach
                     (\<lambda>opInfo opHash m.
                        if transactionNumber (timestamp opInfo) \<ge> transactionNumber'
                        then (Inr (), AList.delete opHash m)
                        else (Inr (), m))
                     (opHashToInfo this1) (opHashToInfo this1) of
                (r, oi) \<Rightarrow> (r, this1\<lparr>opHashToInfo := oi\<rparr>)))"

subsection \<open>Version chain traversal: previous and first\<close>

text \<open>
  The CAS client, the batch file decoder and \<open>WriteOperation.create\<close> belong to other
  modules (\<open>Cas\<close>, \<open>BatchFile\<close>, \<open>Operation\<close>): they are parameters. Each of them may
  throw.
\<close>

record CasEnv =
  cas_read :: "string \<Rightarrow> error + Buffer"
  BatchFile_fromBuffer :: "Buffer \<Rightarrow> error + Buffer list"
  WriteOperation_create :: "Buffer \<Rightarrow> ResolvedTransaction \<Rightarrow> int \<Rightarrow> error + WriteOperation"

text \<open>
  Modelled from the spec: \<open>BatchFile.getOperationBuffer\<close>, of the module \<open>BatchFile\<close>.
  A decoded batch file is the ordered sequence of the raw operation payloads, and
  \<open>getOperationBuffer(i)\<close> gives the i-th payload or fails with \<open>IndexOutOfRange\<close>.
\<close>

definition getOperationBuffer :: "Buffer list \<Rightarrow> int \<Rightarrow> error + Buffer" where
  "getOperationBuffer batchFile index =
     (if 0 \<le> index \<and> index < int (length batchFile)
      then Inr (batchFile ! nat index)
      else Inl (Error ''IndexOutOfRange''))"

definition getOperation :: "CasEnv \<Rightarrow> OperationInfo \<Rightarrow> error + WriteOperation" where
  "getOperation C opInfo =
     (case cas_read C (OperationInfo.batchFileHash opInfo) of
        Inl e \<Rightarrow> Inl e
      | Inr batchBuffer \<Rightarrow>
          (case BatchFile_fromBuffer C batchBuffer of
             Inl e \<Rightarrow> Inl e
           | Inr batchFile \<Rightarrow>
               (case getOperationBuffer batchFile (operationIndex (timestamp opInfo)) of
                  Inl e \<Rightarrow> Inl e
                | Inr operationBuffer' \<Rightarrow>
                    (let resolvedTransaction =
                           \<lparr>ResolvedTransaction.blockNumber = blockNumber (timestamp opInfo),
                            ResolvedTransaction.transactionNumber =
                              transactionNumber (timestamp opInfo),
                            anchorFileHash = ''TODO'',
                            ResolvedTransaction.batchFileHash =
                              OperationInfo.batchFileHash opInfo\<rparr>
                     in WriteOperation_create C operationBuffer' resolvedTransaction
                          (operationIndex (timestamp opInfo))))))"

definition previous :: "CasEnv \<Rightarrow> DidCacheImpl \<Rightarrow> VersionId \<Rightarrow> error + VersionId option" where
  "previous C this versionId =
     (case map_of (opHashToInfo this) versionId of
        None \<Rightarrow> Inr None
      | Some opInfo \<Rightarrow>
          (case getOperation C opInfo of
             Inl e \<Rightarrow> Inl e
           | Inr operation \<Rightarrow>
               (case previousOperationHash operation of
                  None \<Rightarrow> Inr None
                | Some prev \<Rightarrow> if prev = [] then Inr None else Inr (Some prev))))"

text \<open>
  The loop of \<open>first\<close> has no bound: the result is \<open>None\<close> when it does not return.
\<close>

partial_function (option) first_loop ::
  "CasEnv \<Rightarrow> DidCacheImpl \<Rightarrow> VersionId \<Rightarrow> (error + VersionId option) option" where
  "first_loop C this versionId =
     (case previous C this versionId of
        Inl e \<Rightarrow> Some (Inl e)
      | Inr None \<Rightarrow> Some (Inr (Some versionId))
      | Inr (Some prevVersionId) \<Rightarrow> first_loop C this prevVersionId)"

definition first :: "CasEnv \<Rightarrow> DidCacheImpl \<Rightarrow> VersionId \<Rightarrow> (error + VersionId option) option" where
  "first C this versionId =
     (case map_of (opHashToInfo this) versionId of
        None \<Rightarrow> Some (Inr None)
      | Some opInfo \<Rightarrow> first_loop C this versionId)"

section \<open>The Rooter\<close>

text \<open>
  Modelled from the spec: the protocol parameters, of the module \<open>Protocol\<close>.
  \<open>getProtocol\<close> maps a block number to the parameters, among them
  \<open>maxOperationsPerBatch\<close>, a positive integer, and \<open>hashAlgorithmCode\<close>. The table
  behind \<open>getProtocol\<close> is a parameter of the model, as are the batch file encoder, the
  Merkle tree and \<open>JSON.stringify\<close>.
\<close>

record Protocol =
  maxOperationsPerBatch :: nat
  hashAlgorithmCode :: nat

record RooterEnv =
  getProtocol :: "int \<Rightarrow> Protocol"
  BatchFile_toBuffer :: "Buffer option list \<Rightarrow> error + Buffer"
  MerkleTree_rootHash :: "Buffer option list \<Rightarrow> error + string"
  JSON_stringify :: "AnchorFile \<Rightarrow> string"

text \<open>
  What the ledger and the CAS answer during one tick, and the operations that \<open>add\<close>
  puts on the queue while the tick is suspended in each of its four calls.
\<close>

record Tick =
  getLastBlock :: "error + int"
  cas_write_batch :: "Buffer \<Rightarrow> error + string"
  cas_write_anchor :: "Buffer \<Rightarrow> error + string"
  blockchain_write :: "string \<Rightarrow> error + unit"
  addedDuringGetLastBlock :: "Buffer list"
  addedDuringBatchWrite :: "Buffer list"
  addedDuringAnchorWrite :: "Buffer list"
  addedDuringLedgerWrite :: "Buffer list"

record Rooter =
  operations :: "Buffer list"
  processing :: bool

definition add :: "Rooter \<Rightarrow> Buffer \<Rightarrow> Rooter" where
  "add this operation = this\<lparr>operations := operations this @ [operation]\<rparr>"

definition getOperationQueueLength :: "Rooter \<Rightarrow> nat" where
  "getOperationQueueLength this = length (operations this)"

definition suspended :: "Rooter \<Rightarrow> Buffer list \<Rightarrow> Rooter" where
  "suspended this added = foldl add this added"

text \<open>\<open>Deque.shift\<close>: the head of the queue, or \<open>undefined\<close> when it is empty.\<close>

definition shift :: "Buffer list \<Rightarrow> Buffer option \<times> Buffer list" where
  "shift q = (case q of [] \<Rightarrow> (None, []) | x # xs \<Rightarrow> (Some x, xs))"

function getBatch_loop ::
  "nat \<Rightarrow> nat \<Rightarrow> Buffer option list \<Rightarrow> Buffer list \<Rightarrow> Buffer option list \<times> Buffer list" where
  "getBatch_loop count batchSize batch ops =
     (if count < batchSize
      then (case shift ops of
              (x, ops') \<Rightarrow> getBatch_loop (count + 1) batchSize (batch[count := x]) ops')
      else (batch, ops))"
  by pat_completeness auto
termination
  by (relation "measure (\<lambda>(count, batchSize, batch, ops). batchSize - count)") auto

declare getBatch_loop.simps [simp del]

text \<open>
  The numbers of the source are IEEE 754 doubles, and \<open>latestBlock.blockNumber + 1\<close>
  is their addition. For an integer-valued double \<open>n\<close> the sum is exact from
  \<open>-2^53\<close> up to \<open>2^53 - 1\<close>. Beyond, the doubles are the even integers up to magnitude
  \<open>2^54\<close> and multiples of 4 or more after that: \<open>n + 1\<close> is rounded to the nearest
  double, which is \<open>n\<close> from magnitude \<open>2^54\<close> on, and below it the one of \<open>n\<close> and
  \<open>n + 2\<close> with the even significand (the multiple of 4).
\<close>

definition numberPlusOne :: "int \<Rightarrow> int" where
  "numberPlusOne n =
     (if - (2 ^ 53) \<le> n \<and> n < 2 ^ 53 then n + 1
      else if - (2 ^ 54) < n \<and> n < 2 ^ 54 then (if n mod 4 = 0 then n else n + 2)
      else n)"

definition getBatch ::
  "RooterEnv \<Rightarrow> Tick \<Rightarrow> Rooter \<Rightarrow> (error + Buffer option list) \<times> Rooter" where
  "getBatch E W this =
     (let this0 = suspended this (addedDuringGetLastBlock W) in
      case getLastBlock W of
        Inl e \<Rightarrow> (Inl e, this0)
      | Inr latestBlockNumber \<Rightarrow>
          (let protocol = getProtocol E (numberPlusOne latestBlockNumber);
               queueSize = length (operations this0);
               batchSize = (if queueSize > maxOperationsPerBatch protocol
                            then maxOperationsPerBatch protocol else queueSize);
               batch = replicate batchSize None
           in case getBatch_loop 0 batchSize batch (operations this0) of
                (batch', ops') \<Rightarrow> (Inr batch', this0\<lparr>operations := ops'\<rparr>)))"

text \<open>The body of the \<open>try\<close> block of \<open>rootOperations\<close>.\<close>

definition rootOperations_try ::
  "RooterEnv \<Rightarrow> Tick \<Rightarrow> Rooter \<Rightarrow> (error + unit) \<times> Rooter" where
  "rootOperations_try E W this =
     (let this1 = this\<lparr>processing := True\<rparr> in
      case getBatch E W this1 of
        (Inl e, this2) \<Rightarrow> (Inl e, this2)
      | (Inr batch, this2) \<Rightarrow>
          if length batch = 0 then (Inr (), this2)
          else
            (case BatchFile_toBuffer E batch of
               Inl e \<Rightarrow> (Inl e, this2)
             | Inr batchBuffer \<Rightarrow>
                 (let this3 = suspended this2 (addedDuringBatchWrite W) in
                  case cas_write_batch W batchBuffer of
                    Inl e \<Rightarrow> (Inl e, this3)
                  | Inr batchFileHash' \<Rightarrow>
                      (case MerkleTree_rootHash E batch of
                         Inl e \<Rightarrow> (Inl e, this3)
                       | Inr merkleRoot' \<Rightarrow>
                           (let anchorFile = \<lparr>AnchorFile.batchFileHash = batchFileHash',
                                              merkleRoot = merkleRoot'\<rparr>;
                                anchorFileJsonBuffer = Buffer_from (JSON_stringify E anchorFile);
                                this4 = suspended this3 (addedDuringAnchorWrite W)
                            in case cas_write_anchor W anchorFileJsonBuffer of
                                 Inl e \<Rightarrow> (Inl e, this4)
                               | Inr anchorFileAddress \<Rightarrow>
                                   (let this5 = suspended this4 (addedDuringLedgerWrite W)
                                    in case blockchain_write W anchorFileAddress of
                                         Inl e \<Rightarrow> (Inl e, this5)
                                       | Inr _ \<Rightarrow> (Inr (), this5)))))))"

text \<open>
  \<open>rootOperations\<close>: the early return, then \<open>try\<close>, \<open>catch\<close> (which logs and does
  not throw again) and \<open>finally\<close>. The first component is \<open>Inl\<close> when the call
  throws.
\<close>

definition rootOperations :: "RooterEnv \<Rightarrow> Tick \<Rightarrow> Rooter \<Rightarrow> (error + unit) \<times> Rooter" where
  "rootOperations E W this =
     (if processing this then (Inr (), this)
      else
        (case rootOperations_try E W this of
           (r, this') \<Rightarrow>
             (let caught = (case r of Inl e \<Rightarrow> Inr () | Inr u \<Rightarrow> Inr u)
              in (caught, this'\<lparr>processing := False\<rparr>))))"

section \<open>Sequences of calls and the notions used to state the properties\<close>

text \<open>
  The \<open>OperationInfo\<close> that \<open>apply\<close> builds from an operation: it exists when the four
  fields of the resolved transaction are present.
\<close>

definition opInfoOf :: "WriteOperation \<Rightarrow> OperationInfo option" where
  "opInfoOf operation =
     (case WriteOperation.blockNumber operation of None \<Rightarrow> None | Some bn \<Rightarrow>
      (case WriteOperation.transactionNumber operation of None \<Rightarrow> None | Some tn \<Rightarrow>
       (case WriteOperation.operationIndex operation of None \<Rightarrow> None | Some oi \<Rightarrow>
        (case WriteOperation.batchFileHash operation of None \<Rightarrow> None | Some bfh \<Rightarrow>
           Some \<lparr>batchFileHash = bfh, type = WriteOperation.type operation,
                 timestamp = \<lparr>blockNumber = bn, transactionNumber = tn,
                               operationIndex = oi\<rparr>\<rparr>))))"

definition hasMetadata :: "WriteOperation \<Rightarrow> bool" where
  "hasMetadata operation =
     (WriteOperation.blockNumber operation \<noteq> None \<and>
      WriteOperation.transactionNumber operation \<noteq> None \<and>
      WriteOperation.operationIndex operation \<noteq> None \<and>
      WriteOperation.batchFileHash operation \<noteq> None)"

text \<open>The previous version that \<open>apply\<close> links the operation to, if any.\<close>

definition chainPrev :: "WriteOperation \<Rightarrow> VersionId option" where
  "chainPrev operation =
     (case previousOperationHash operation of
        None \<Rightarrow> None
      | Some prev \<Rightarrow> if prev = [] then None else Some prev)"

text \<open>
  A sequence of \<open>apply\<close> calls on one cache. A call that throws leaves the cache as
  the call left it, and the caller goes on with the next operation.
\<close>

definition applyAll :: "Crypto \<Rightarrow> DidCacheImpl \<Rightarrow> WriteOperation list \<Rightarrow> DidCacheImpl" where
  "applyAll K this ops = foldl (\<lambda>s operation. snd (apply_op K s operation)) this ops"

text \<open>The test of \<open>apply\<close> that discards a duplicate.\<close>

definition superseded :: "DidCacheImpl \<Rightarrow> OperationHash \<Rightarrow> OperationInfo \<Rightarrow> bool" where
  "superseded this h i =
     (case map_of (opHashToInfo this) h of
        None \<Rightarrow> False
      | Some p \<Rightarrow> earlier (timestamp p) (timestamp i))"

text \<open>The test of \<open>applyVersionChainUpdates\<close> that keeps the current next version.\<close>

definition keepsCurrent :: "DidCacheImpl \<Rightarrow> VersionId \<Rightarrow> OperationInfo \<Rightarrow> bool" where
  "keepsCurrent this p i =
     (case map_of (nextVersion this) p of
        None \<Rightarrow> False
      | Some cur \<Rightarrow>
          (case map_of (opHashToInfo this) cur of
             None \<Rightarrow> False
           | Some ci \<Rightarrow> earlier (timestamp ci) (timestamp i)))"

text \<open>Every next version is a key of \<open>opHashToInfo\<close>.\<close>

definition nextClosed :: "DidCacheImpl \<Rightarrow> bool" where
  "nextClosed this =
     (\<forall>p \<in> fst ` set (nextVersion this).
        case map_of (nextVersion this) p of
          None \<Rightarrow> True
        | Some n \<Rightarrow> map_of (opHashToInfo this) n \<noteq> None)"

definition earliestStored ::
  "Crypto \<Rightarrow> WriteOperation list \<Rightarrow> DidCacheImpl \<Rightarrow> OperationHash \<Rightarrow> bool" where
  "earliestStored K ops this h =
     (case map_of (opHashToInfo this) h of
        None \<Rightarrow> (\<forall>operation \<in> set ops. getHash K operation = h \<longrightarrow> opInfoOf operation = None)
      | Some info \<Rightarrow>
          (\<exists>operation \<in> set ops. getHash K operation = h \<and> opInfoOf operation = Some info) \<and>
          (\<forall>operation \<in> set ops. getHash K operation = h \<longrightarrow>
             (case opInfoOf operation of
                None \<Rightarrow> True
              | Some i \<Rightarrow> \<not> earlier (timestamp i) (timestamp info))))"

text \<open>
  Operations with the same hash have the same previous version: the hash identifies
  the operation, as the source assumes of a \<open>VersionId\<close>.
\<close>

definition hashFixesPrev :: "Crypto \<Rightarrow> WriteOperation list \<Rightarrow> bool" where
  "hashFixesPrev K ops =
     (\<forall>a \<in> set ops. \<forall>b \<in> set ops.
        hasMetadata a \<and> hasMetadata b \<and> getHash K a = getHash K b \<longrightarrow>
        chainPrev a = chainPrev b)"

text \<open>
  The operations of a sequence that a rollback to the given transaction number
  prunes, and the sequences in non-decreasing order of (transaction number, operation
  index).
\<close>

definition prunedOps :: "int \<Rightarrow> WriteOperation list \<Rightarrow> WriteOperation list" where
  "prunedOps transactionNumber' ops =
     filter (\<lambda>operation. case WriteOperation.transactionNumber operation of
                            None \<Rightarrow> False
                          | Some tn \<Rightarrow> tn \<ge> transactionNumber') ops"

definition nonDecreasing :: "WriteOperation list \<Rightarrow> bool" where
  "nonDecreasing ops =
     sorted_wrt (\<lambda>a b. case (opInfoOf a, opInfoOf b) of
                          (Some i, Some j) \<Rightarrow> \<not> earlier (timestamp j) (timestamp i)
                        | _ \<Rightarrow> False) ops"

subsection \<open>Example data\<close>

text \<open>
  A hash function for the examples: the multihash is the content itself and the
  encoding is the identity, so the hash of an operation is the content it hashes.
\<close>

definition plainCrypto :: Crypto where
  "plainCrypto = \<lparr>Multihash_hash = (\<lambda>content code. content),
                   Base58_encode = (\<lambda>multihash. multihash)\<rparr>"

text \<open>
  An operation anchored in block 1 at the given transaction number and operation
  index, in batch file \<open>bf\<close>; buffer and encoded payload are the same bytes.
\<close>

definition anchoredOp ::
  "OperationType \<Rightarrow> Buffer \<Rightarrow> VersionId option \<Rightarrow> int \<Rightarrow> int \<Rightarrow> WriteOperation" where
  "anchoredOp t content prev tn oi =
     \<lparr>operationBuffer = content, WriteOperation.type = t, encodedPayload = content,
      previousOperationHash = prev, WriteOperation.blockNumber = Some 1,
      WriteOperation.transactionNumber = Some tn, WriteOperation.operationIndex = Some oi,
      WriteOperation.batchFileHash = Some ''bf''\<rparr>"

text \<open>An operation that was not resolved against the ledger: no block number.\<close>

definition unresolvedOp :: WriteOperation where
  "unresolvedOp = (anchoredOp Update ''U'' None 5 0)\<lparr>WriteOperation.blockNumber := None\<rparr>"

text \<open>The same bytes anchored twice, at transaction 5 and at transaction 7.\<close>

definition dupEarly :: WriteOperation where
  "dupEarly = anchoredOp Update ''A'' None 5 0"

definition dupLate :: WriteOperation where
  "dupLate = anchoredOp Update ''A'' None 7 0"

text \<open>
  Two updates of \<open>C\<close> with the same timestamp, and the first of them once more with
  another batch file hash.
\<close>

definition sibling1 :: WriteOperation where
  "sibling1 = anchoredOp Update ''U1'' (Some ''C'') 10 0"

definition sibling2 :: WriteOperation where
  "sibling2 = anchoredOp Update ''U2'' (Some ''C'') 10 0"

definition sibling1' :: WriteOperation where
  "sibling1' = sibling1\<lparr>WriteOperation.batchFileHash := Some ''bf2''\<rparr>"

text \<open>
  A create operation \<open>C\<close>, two updates of \<open>C\<close> in transaction 10 and an update of
  \<open>U1\<close> in transaction 12.
\<close>

definition genesis :: WriteOperation where
  "genesis = anchoredOp Create ''C'' None 1 0"

definition update1 :: WriteOperation where
  "update1 = anchoredOp Update ''U1'' (Some ''C'') 10 0"

definition update2 :: WriteOperation where
  "update2 = anchoredOp Update ''U2'' (Some ''C'') 10 1"

definition update3 :: WriteOperation where
  "update3 = anchoredOp Update ''U3'' (Some ''U1'') 12 0"

text \<open>
  An update \<open>W\<close> of \<open>V\<close> anchored in transaction 5, before the create operation \<open>K\<close>
  (transaction 10) and its update \<open>V\<close> (transaction 11).
\<close>

definition earlyChild :: WriteOperation where
  "earlyChild = anchoredOp Update ''W'' (Some ''V'') 5 0"

definition lateRoot :: WriteOperation where
  "lateRoot = anchoredOp Create ''K'' None 10 0"

definition lateParent :: WriteOperation where
  "lateParent = anchoredOp Update ''V'' (Some ''K'') 11 0"

text \<open>An update of a version \<open>C\<close> that was never applied, and a CAS that serves it.\<close>

definition orphanUpdate :: WriteOperation where
  "orphanUpdate = anchoredOp Update ''U'' (Some ''C'') 5 0"

definition exampleCas :: CasEnv where
  "exampleCas =
     \<lparr>cas_read = (\<lambda>hash. Inr ''batch''),
      BatchFile_fromBuffer = (\<lambda>buffer. Inr [''U'']),
      WriteOperation_create = (\<lambda>buffer resolvedTransaction index.
        Inr \<lparr>operationBuffer = buffer, WriteOperation.type = Update, encodedPayload = buffer,
             previousOperationHash = Some ''C'',
             WriteOperation.blockNumber =
               Some (ResolvedTransaction.blockNumber resolvedTransaction),
             WriteOperation.transactionNumber =
               Some (ResolvedTransaction.transactionNumber resolvedTransaction),
             WriteOperation.operationIndex = Some index,
             WriteOperation.batchFileHash =
               Some (ResolvedTransaction.batchFileHash resolvedTransaction)\<rparr>)\<rparr>"

text \<open>
  A multihash that shows its algorithm code, a protocol table that selects code 22
  from block 1000 on, and an update anchored in block 2000.
\<close>

definition taggedCrypto :: Crypto where
  "taggedCrypto =
     \<lparr>Multihash_hash =
        (\<lambda>content code. (if code = 18 then ''sha2-256:'' else ''other:'') @ content),
      Base58_encode = (\<lambda>multihash. multihash)\<rparr>"

definition laterProtocol :: "int \<Rightarrow> Protocol" where
  "laterProtocol blockNumber' =
     (if blockNumber' < 1000 then \<lparr>maxOperationsPerBatch = 100, hashAlgorithmCode = 18\<rparr>
      else \<lparr>maxOperationsPerBatch = 100, hashAlgorithmCode = 22\<rparr>)"

definition lateUpdate :: WriteOperation where
  "lateUpdate =
     (anchoredOp Update ''U'' (Some ''C'') 5 0)\<lparr>WriteOperation.blockNumber := Some 2000\<rparr>"

text \<open>
  A Rooter with three queued operations and a batch cap of 2; a tick during which one
  operation is added while the ledger is queried and one while the batch file is
  written, and in which the CAS refuses the batch file.
\<close>

definition exampleEnv :: RooterEnv where
  "exampleEnv =
     \<lparr>getProtocol = (\<lambda>blockNumber'. \<lparr>maxOperationsPerBatch = 2, hashAlgorithmCode = 18\<rparr>),
      BatchFile_toBuffer = (\<lambda>batch. Inr (concat (map (case_option [] id) batch))),
      MerkleTree_rootHash = (\<lambda>batch. Inr ''root''),
      JSON_stringify =
        (\<lambda>anchorFile. AnchorFile.batchFileHash anchorFile @ merkleRoot anchorFile)\<rparr>"

definition casDown :: Tick where
  "casDown =
     \<lparr>getLastBlock = Inr 7,
      cas_write_batch = (\<lambda>buffer. Inl (Error ''CAS unavailable'')),
      cas_write_anchor = (\<lambda>buffer. Inr ''anchor''),
      blockchain_write = (\<lambda>address. Inr ()),
      addedDuringGetLastBlock = [''d''],
      addedDuringBatchWrite = [''e''],
      addedDuringAnchorWrite = [],
      addedDuringLedgerWrite = []\<rparr>"

definition threeQueued :: Rooter where
  "threeQueued = \<lparr>operations = [''a'', ''b'', ''c''], processing = False\<rparr>"

section \<open>Properties of apply\<close>

lemmas cache_eval =
  applyAll_def apply_op_def getHash_def applyVersionChainUpdates_def earlier_def
  newDidCache_def plainCrypto_def anchoredOp_def Buffer_from_def Let_def opInfoOf_def

lemma earlier_irrefl: "\<not> earlier t t"
  by (simp add: earlier_def)

lemma earlier_asym: "earlier a b \<Longrightarrow> \<not> earlier b a"
  by (auto simp: earlier_def)

lemma earlier_trans: "earlier a b \<Longrightarrow> earlier b c \<Longrightarrow> earlier a c"
  by (auto simp: earlier_def)

lemma not_earlier_trans: "\<not> earlier a b \<Longrightarrow> \<not> earlier b c \<Longrightarrow> \<not> earlier a c"
  by (auto simp: earlier_def)

lemma opInfoOf_hasMetadata: "hasMetadata operation \<longleftrightarrow> opInfoOf operation \<noteq> None"
  by (simp add: hasMetadata_def opInfoOf_def split: option.splits)

lemma apply_op_missing:
  "\<not> hasMetadata operation \<Longrightarrow>
     apply_op K this operation = (Inl (InvalidOperation ''blockNumber''), this) \<or>
     apply_op K this operation = (Inl (InvalidOperation ''transactionNumber''), this) \<or>
     apply_op K this operation = (Inl (InvalidOperation ''operationIndex''), this) \<or>
     apply_op K this operation = (Inl (InvalidOperation ''batchFileHash''), this)"
  by (cases "WriteOperation.blockNumber operation";
      cases "WriteOperation.transactionNumber operation";
      cases "WriteOperation.operationIndex operation";
      cases "WriteOperation.batchFileHash operation")
     (simp_all add: hasMetadata_def apply_op_def Let_def)

lemma applyVersionChainUpdates_no_Error:
  "applyVersionChainUpdates this h i p \<noteq> (Inl (Error msg), this')"
  by (simp add: applyVersionChainUpdates_def split: option.splits)

lemma apply_op_present:
  "hasMetadata operation \<Longrightarrow> fst (apply_op K this operation) \<noteq> Inl (Error msg)"
  by (auto simp: hasMetadata_def apply_op_def Let_def applyVersionChainUpdates_no_Error
      split: option.splits prod.splits sum.splits)

lemma apply_op_None:
  "opInfoOf operation = None \<Longrightarrow> snd (apply_op K this operation) = this"
  by (simp add: opInfoOf_def apply_op_def Let_def split: option.splits)

lemma apply_op_Some:
  assumes "opInfoOf operation = Some i"
  shows "apply_op K this operation =
     (if superseded this (getHash K operation) i then (Inr None, this)
      else (let this1 = this\<lparr>opHashToInfo :=
                          AList.update (getHash K operation) i (opHashToInfo this)\<rparr>
            in case chainPrev operation of
                 None \<Rightarrow> (Inr (Some (getHash K operation)), this1)
               | Some prev \<Rightarrow>
                   (case applyVersionChainUpdates this1 (getHash K operation) i prev of
                      (Inl e, this2) \<Rightarrow> (Inl e, this2)
                    | (Inr _, this2) \<Rightarrow> (Inr (Some (getHash K operation)), this2))))"
  using assms
  by (auto simp: opInfoOf_def apply_op_def Let_def superseded_def chainPrev_def
      split: option.splits)

lemma apply_op_superseded:
  "opInfoOf operation = Some i \<Longrightarrow> superseded this (getHash K operation) i \<Longrightarrow>
   apply_op K this operation = (Inr None, this)"
  by (simp add: apply_op_Some)

lemma nextClosed_map_of:
  assumes c: "nextClosed this" and m: "map_of (nextVersion this) p = Some n"
  shows "map_of (opHashToInfo this) n \<noteq> None"
proof -
  from m have "p \<in> fst ` set (nextVersion this)"
    by (metis domI dom_map_of_conv_image_fst)
  with c m show ?thesis by (force simp: nextClosed_def)
qed

lemma applyVersionChainUpdates_maps:
  assumes "\<And>cur. map_of (nextVersion this) p = Some cur \<Longrightarrow>
                 map_of (opHashToInfo this) cur \<noteq> None"
  shows "\<exists>this'. applyVersionChainUpdates this h i p = (Inr (), this') \<and>
           opHashToInfo this' = opHashToInfo this \<and>
           map_of (nextVersion this') =
             (if keepsCurrent this p i then map_of (nextVersion this)
              else (map_of (nextVersion this))(p \<mapsto> h))"
  using assms
  by (auto simp: applyVersionChainUpdates_def keepsCurrent_def update_conv'
      split: option.splits)

lemma apply_op_stored:
  assumes i: "opInfoOf operation = Some i"
    and c: "nextClosed this"
    and s: "\<not> superseded this (getHash K operation) i"
  shows "\<exists>this'. apply_op K this operation = (Inr (Some (getHash K operation)), this') \<and>
           map_of (opHashToInfo this') =
             (map_of (opHashToInfo this))(getHash K operation \<mapsto> i) \<and>
           map_of (nextVersion this') =
             (case chainPrev operation of
                None \<Rightarrow> map_of (nextVersion this)
              | Some p \<Rightarrow>
                  if keepsCurrent (this\<lparr>opHashToInfo :=
                        AList.update (getHash K operation) i (opHashToInfo this)\<rparr>) p i
                  then map_of (nextVersion this)
                  else (map_of (nextVersion this))(p \<mapsto> getHash K operation))"
proof (cases "chainPrev operation")
  case None
  then show ?thesis using i s by (simp add: apply_op_Some update_conv')
next
  case (Some p)
  let ?h = "getHash K operation"
  let ?this1 = "this\<lparr>opHashToInfo := AList.update ?h i (opHashToInfo this)\<rparr>"
  have "\<And>cur. map_of (nextVersion ?this1) p = Some cur \<Longrightarrow>
              map_of (opHashToInfo ?this1) cur \<noteq> None"
    using c by (auto simp: update_conv' dest: nextClosed_map_of)
  from applyVersionChainUpdates_maps[of ?this1 p ?h i, OF this]
  obtain this' where "applyVersionChainUpdates ?this1 ?h i p = (Inr (), this')"
    "opHashToInfo this' = opHashToInfo ?this1"
    "map_of (nextVersion this') =
             (if keepsCurrent ?this1 p i then map_of (nextVersion ?this1)
              else (map_of (nextVersion ?this1))(p \<mapsto> ?h))"
    by blast
  then show ?thesis using i s Some by (simp add: apply_op_Some update_conv')
qed

lemma nextClosed_apply_op:
  assumes "nextClosed this"
  shows "nextClosed (snd (apply_op K this operation))"
proof (cases "opInfoOf operation")
  case None
  then show ?thesis using assms by (simp add: apply_op_None)
next
  case (Some i)
  show ?thesis
  proof (cases "superseded this (getHash K operation) i")
    case True
    then show ?thesis using assms Some by (simp add: apply_op_superseded)
  next
    case False
    from apply_op_stored[OF Some assms False] obtain this' where
      a: "apply_op K this operation = (Inr (Some (getHash K operation)), this')" and
      b: "map_of (opHashToInfo this') =
            (map_of (opHashToInfo this))(getHash K operation \<mapsto> i)" and
      d: "map_of (nextVersion this') =
             (case chainPrev operation of
                None \<Rightarrow> map_of (nextVersion this)
              | Some p \<Rightarrow>
                  if keepsCurrent (this\<lparr>opHashToInfo :=
                        AList.update (getHash K operation) i (opHashToInfo this)\<rparr>) p i
                  then map_of (nextVersion this)
                  else (map_of (nextVersion this))(p \<mapsto> getHash K operation))"
      by blast
    have "\<And>p n. map_of (nextVersion this') p = Some n \<Longrightarrow>
                map_of (opHashToInfo this') n \<noteq> None"
      using assms b d by (auto split: option.splits if_splits dest: nextClosed_map_of)
    then show ?thesis using a by (auto simp: nextClosed_def split: option.splits)
  qed
qed

lemma applyAll_snoc:
  "applyAll K this (ops @ [operation]) = snd (apply_op K (applyAll K this ops) operation)"
  by (simp add: applyAll_def)

lemma applyAll_Nil: "applyAll K this [] = this"
  by (simp add: applyAll_def)

lemma applyAll_append: "applyAll K this (xs @ ys) = applyAll K (applyAll K this xs) ys"
  by (simp add: applyAll_def)

lemma nextClosed_new: "nextClosed newDidCache"
  by (simp add: nextClosed_def newDidCache_def)

lemma nextClosed_applyAll: "nextClosed this \<Longrightarrow> nextClosed (applyAll K this ops)"
  by (induction ops rule: rev_induct)
     (simp_all add: applyAll_Nil applyAll_snoc nextClosed_apply_op)

lemma earliestStored_applyAll: "earliestStored K ops (applyAll K newDidCache ops) h"
proof (induction ops rule: rev_induct)
  case Nil
  then show ?case by (simp add: earliestStored_def applyAll_Nil newDidCache_def)
next
  case (snoc operation ops)
  let ?st = "applyAll K newDidCache ops"
  have c: "nextClosed ?st" by (simp add: nextClosed_applyAll nextClosed_new)
  show ?case
  proof (cases "opInfoOf operation")
    case None
    then show ?thesis using snoc
      by (auto simp: applyAll_snoc apply_op_None earliestStored_def split: option.splits)
  next
    case (Some i)
    show ?thesis
    proof (cases "superseded ?st (getHash K operation) i")
      case True
      then show ?thesis using snoc Some
        by (auto simp: applyAll_snoc apply_op_superseded earliestStored_def superseded_def
            split: option.splits dest: earlier_asym)
    next
      case False
      from apply_op_stored[OF Some c False] obtain this' where
        a: "apply_op K ?st operation = (Inr (Some (getHash K operation)), this')" and
        b: "map_of (opHashToInfo this') =
              (map_of (opHashToInfo ?st))(getHash K operation \<mapsto> i)"
        by blast
      show ?thesis
      proof (cases "h = getHash K operation")
        case True
        have "\<forall>o' \<in> set ops. getHash K o' = h \<longrightarrow>
              (case opInfoOf o' of
                 None \<Rightarrow> True
               | Some j \<Rightarrow> \<not> earlier (timestamp j) (timestamp i))"
          using snoc False True
          by (auto simp: earliestStored_def superseded_def split: option.splits
              dest: not_earlier_trans)
        then show ?thesis using a b True Some
          by (auto simp: applyAll_snoc earliestStored_def earlier_irrefl)
      next
        case False
        then show ?thesis using snoc a b
          by (auto simp: applyAll_snoc earliestStored_def split: option.splits)
      qed
    qed
  qed
qed

text \<open>
  C7. \<open>apply\<close> throws the error \<open>Invalid operation: ... undefined\<close> exactly when one
  of \<open>blockNumber\<close>, \<open>transactionNumber\<close>, \<open>operationIndex\<close>, \<open>batchFileHash\<close> is
  undefined on the operation, and the cache after that throw is the cache before the
  call: both maps are unchanged. This holds in every cache state. When the four fields
  are present and every next version of the cache is a key of \<open>opHashToInfo\<close>, the call
  throws nothing at all.
\<close>

theorem apply_error_contract:
  "(if WriteOperation.blockNumber operation = None \<or>
       WriteOperation.transactionNumber operation = None \<or>
       WriteOperation.operationIndex operation = None \<or>
       WriteOperation.batchFileHash operation = None
    then (\<exists>field. apply_op K this operation = (Inl (InvalidOperation field), this))
    else (\<forall>field. fst (apply_op K this operation) \<noteq> Inl (InvalidOperation field)) \<and>
         (nextClosed this \<longrightarrow> (\<exists>r. fst (apply_op K this operation) = Inr r)))
   \<and> (\<forall>field. fst (apply_op K this operation) = Inl (InvalidOperation field) \<longrightarrow>
         snd (apply_op K this operation) = this)"
proof -
  have m: "\<exists>field. apply_op K this operation = (Inl (InvalidOperation field), this)"
    if "\<not> hasMetadata operation"
    using apply_op_missing[OF that, of K this] by blast
  have p: "fst (apply_op K this operation) \<noteq> Inl (InvalidOperation field)"
    if "hasMetadata operation" for field
    using apply_op_present[OF that] by (simp add: InvalidOperation_def)
  have r: "\<exists>r. fst (apply_op K this operation) = Inr r"
    if h: "hasMetadata operation" and c: "nextClosed this"
  proof -
    from h obtain i where i: "opInfoOf operation = Some i"
      by (auto simp: opInfoOf_hasMetadata)
    show ?thesis
    proof (cases "superseded this (getHash K operation) i")
      case True
      then show ?thesis using i by (simp add: apply_op_superseded)
    next
      case False
      from apply_op_stored[OF i c False] show ?thesis by auto
    qed
  qed
  show ?thesis
  proof (cases "hasMetadata operation")
    case True
    then show ?thesis using p r by (auto simp: hasMetadata_def)
  next
    case False
    then show ?thesis using m by (auto simp: hasMetadata_def)
  qed
qed

theorem apply_error_contract_witness:
  "WriteOperation.blockNumber unresolvedOp = None \<and>
   fst (apply_op plainCrypto newDidCache unresolvedOp) = Inl (InvalidOperation ''blockNumber'') \<and>
   snd (apply_op plainCrypto newDidCache unresolvedOp) = newDidCache \<and>
   WriteOperation.blockNumber dupEarly \<noteq> None \<and>
   WriteOperation.transactionNumber dupEarly \<noteq> None \<and>
   WriteOperation.operationIndex dupEarly \<noteq> None \<and>
   WriteOperation.batchFileHash dupEarly \<noteq> None \<and>
   nextClosed newDidCache \<and>
   fst (apply_op plainCrypto newDidCache dupEarly) \<noteq> Inl (InvalidOperation ''blockNumber'') \<and>
   (\<exists>r. fst (apply_op plainCrypto newDidCache dupEarly) = Inr r)"
proof -
  have h: "WriteOperation.blockNumber unresolvedOp = None"
    by (simp add: unresolvedOp_def)
  have f: "fst (apply_op plainCrypto newDidCache unresolvedOp) =
             Inl (InvalidOperation ''blockNumber'')"
    by (simp add: unresolvedOp_def apply_op_def)
  from apply_error_contract[where operation = unresolvedOp and K = plainCrypto
      and this = newDidCache] f
  have s: "snd (apply_op plainCrypto newDidCache unresolvedOp) = newDidCache"
    by blast
  have m: "WriteOperation.blockNumber dupEarly \<noteq> None \<and>
           WriteOperation.transactionNumber dupEarly \<noteq> None \<and>
           WriteOperation.operationIndex dupEarly \<noteq> None \<and>
           WriteOperation.batchFileHash dupEarly \<noteq> None"
    by (simp add: dupEarly_def anchoredOp_def)
  have c: "nextClosed newDidCache" by (rule nextClosed_new)
  from apply_error_contract[where operation = dupEarly and K = plainCrypto
      and this = newDidCache] m c
  have "fst (apply_op plainCrypto newDidCache dupEarly) \<noteq> Inl (InvalidOperation ''blockNumber'') \<and>
        (\<exists>r. fst (apply_op plainCrypto newDidCache dupEarly) = Inr r)"
    by auto
  with h f s m c show ?thesis by simp
qed

text \<open>
  C1. Duplicate resolution is earliest-wins. After any sequence of \<open>apply\<close> calls on a
  new cache, a hash \<open>h\<close> is a key of \<open>opHashToInfo\<close> exactly when some applied operation
  with the required metadata hashed to \<open>h\<close>; the stored entry is then the
  \<open>OperationInfo\<close> of one of these operations, and none of them has an earlier
  timestamp: the stored timestamp is the minimum. In the state after the sequence, an
  \<open>apply\<close> of an operation whose hash is stored with a strictly earlier timestamp
  returns \<open>undefined\<close> and leaves the cache unchanged; every other \<open>apply\<close> of an
  operation with the required metadata returns the hash, and the new \<open>OperationInfo\<close>
  is stored under it.
\<close>

theorem apply_earliest_wins:
  "(case map_of (opHashToInfo (applyAll K newDidCache ops)) h of
      None \<Rightarrow> (\<forall>operation \<in> set ops. getHash K operation = h \<longrightarrow> opInfoOf operation = None)
    | Some info \<Rightarrow>
        (\<exists>operation \<in> set ops. getHash K operation = h \<and> opInfoOf operation = Some info) \<and>
        (\<forall>operation \<in> set ops. \<forall>j. getHash K operation = h \<and> opInfoOf operation = Some j \<longrightarrow>
           \<not> earlier (timestamp j) (timestamp info)))
   \<and> (opInfoOf operation = Some i \<longrightarrow>
        (if superseded (applyAll K newDidCache ops) (getHash K operation) i
         then apply_op K (applyAll K newDidCache ops) operation =
                (Inr None, applyAll K newDidCache ops)
         else fst (apply_op K (applyAll K newDidCache ops) operation) =
                Inr (Some (getHash K operation)) \<and>
              map_of (opHashToInfo (snd (apply_op K (applyAll K newDidCache ops) operation)))
                (getHash K operation) = Some i))"
proof -
  let ?st = "applyAll K newDidCache ops"
  have c: "nextClosed ?st" by (simp add: nextClosed_applyAll nextClosed_new)
  have one: "case map_of (opHashToInfo ?st) h of
      None \<Rightarrow> (\<forall>operation \<in> set ops. getHash K operation = h \<longrightarrow> opInfoOf operation = None)
    | Some info \<Rightarrow>
        (\<exists>operation \<in> set ops. getHash K operation = h \<and> opInfoOf operation = Some info) \<and>
        (\<forall>operation \<in> set ops. \<forall>j. getHash K operation = h \<and> opInfoOf operation = Some j \<longrightarrow>
           \<not> earlier (timestamp j) (timestamp info))"
    using earliestStored_applyAll[of K ops h]
    by (force simp: earliestStored_def split: option.splits)
  have two: "apply_op K ?st operation = (Inr None, ?st)"
    if "opInfoOf operation = Some i" "superseded ?st (getHash K operation) i"
    using that by (rule apply_op_superseded)
  have three: "fst (apply_op K ?st operation) = Inr (Some (getHash K operation)) \<and>
        map_of (opHashToInfo (snd (apply_op K ?st operation))) (getHash K operation) = Some i"
    if "opInfoOf operation = Some i" "\<not> superseded ?st (getHash K operation) i"
    using apply_op_stored[OF that(1) c that(2)] by auto
  show ?thesis using one two three by simp
qed

theorem apply_earliest_wins_witness:
  "getHash plainCrypto dupEarly = ''A'' \<and> getHash plainCrypto dupLate = ''A'' \<and>
   opInfoOf dupEarly \<noteq> None \<and> opInfoOf dupLate \<noteq> None \<and>
   map_of (opHashToInfo (applyAll plainCrypto newDidCache [dupEarly, dupLate])) ''A'' =
     opInfoOf dupEarly \<and>
   apply_op plainCrypto (applyAll plainCrypto newDidCache [dupEarly]) dupLate =
     (Inr None, applyAll plainCrypto newDidCache [dupEarly]) \<and>
   fst (apply_op plainCrypto (applyAll plainCrypto newDidCache []) dupEarly) = Inr (Some ''A'')"
proof -
  let ?i5 = "\<lparr>batchFileHash = ''bf'', type = Update,
              timestamp = \<lparr>blockNumber = 1, transactionNumber = 5, operationIndex = 0\<rparr>\<rparr>"
  let ?i7 = "\<lparr>batchFileHash = ''bf'', type = Update,
              timestamp = \<lparr>blockNumber = 1, transactionNumber = 7, operationIndex = 0\<rparr>\<rparr>"
  have h: "getHash plainCrypto dupEarly = ''A''" "getHash plainCrypto dupLate = ''A''"
    by (simp_all add: getHash_def plainCrypto_def dupEarly_def dupLate_def anchoredOp_def)
  have i: "opInfoOf dupEarly = Some ?i5" "opInfoOf dupLate = Some ?i7"
    by (simp_all add: opInfoOf_def dupEarly_def dupLate_def anchoredOp_def)
  have st: "map_of (opHashToInfo (applyAll plainCrypto newDidCache [dupEarly, dupLate])) ''A'' =
              Some ?i5"
    by (simp add: applyAll_def apply_op_def getHash_def plainCrypto_def dupEarly_def
        dupLate_def anchoredOp_def newDidCache_def earlier_def)
  have sup: "superseded (applyAll plainCrypto newDidCache [dupEarly])
               (getHash plainCrypto dupLate) ?i7"
    by (simp add: superseded_def applyAll_def apply_op_def getHash_def plainCrypto_def
        dupEarly_def dupLate_def anchoredOp_def newDidCache_def earlier_def Let_def)
  have nsup: "\<not> superseded (applyAll plainCrypto newDidCache [])
               (getHash plainCrypto dupEarly) ?i5"
    by (simp add: superseded_def applyAll_def newDidCache_def)
  from apply_earliest_wins[where K = plainCrypto and ops = "[dupEarly]" and h = "''A''"
      and operation = dupLate and i = ?i7] i sup
  have a: "apply_op plainCrypto (applyAll plainCrypto newDidCache [dupEarly]) dupLate =
     (Inr None, applyAll plainCrypto newDidCache [dupEarly])"
    by simp
  from apply_earliest_wins[where K = plainCrypto and ops = "[]" and h = "''A''"
      and operation = dupEarly and i = ?i5] i nsup h
  have b: "fst (apply_op plainCrypto (applyAll plainCrypto newDidCache []) dupEarly) =
             Inr (Some ''A'')"
    by simp
  from apply_earliest_wins[where K = plainCrypto and ops = "[dupEarly, dupLate]" and h = "''A''"
      and operation = dupLate and i = ?i7] st
  have "\<exists>operation \<in> set [dupEarly, dupLate]. opInfoOf operation = Some ?i5"
    by auto
  with h i st a b show ?thesis by simp
qed


section \<open>Fork resolution\<close>

lemma hashFixesPrev_mono:
  "set xs \<subseteq> set ys \<Longrightarrow> hashFixesPrev K ys \<Longrightarrow> hashFixesPrev K xs"
  unfolding hashFixesPrev_def by blast

lemma hashFixesPrev_butlast: "hashFixesPrev K (ops @ [operation]) \<Longrightarrow> hashFixesPrev K ops"
  by (rule hashFixesPrev_mono[of ops "ops @ [operation]"]) auto

lemma hashFixesPrevD:
  "hashFixesPrev K ops \<Longrightarrow> a \<in> set ops \<Longrightarrow> b \<in> set ops \<Longrightarrow>
   opInfoOf a \<noteq> None \<Longrightarrow> opInfoOf b \<noteq> None \<Longrightarrow> getHash K a = getHash K b \<Longrightarrow>
   chainPrev a = chainPrev b"
  unfolding hashFixesPrev_def opInfoOf_hasMetadata by blast

lemma chainPrev_Some:
  "chainPrev operation = Some p \<longleftrightarrow> previousOperationHash operation = Some p \<and> p \<noteq> []"
  by (auto simp: chainPrev_def split: option.splits)

lemma apply_op_cases:
  assumes c: "nextClosed this"
  obtains (missing) "opInfoOf operation = None" "snd (apply_op K this operation) = this"
  | (discarded) i where "opInfoOf operation = Some i"
      "superseded this (getHash K operation) i"
      "snd (apply_op K this operation) = this"
  | (stored) i where "opInfoOf operation = Some i"
      "\<not> superseded this (getHash K operation) i"
      "map_of (opHashToInfo (snd (apply_op K this operation))) =
         (map_of (opHashToInfo this))(getHash K operation \<mapsto> i)"
      "map_of (nextVersion (snd (apply_op K this operation))) =
             (case chainPrev operation of
                None \<Rightarrow> map_of (nextVersion this)
              | Some p \<Rightarrow>
                  if keepsCurrent (this\<lparr>opHashToInfo :=
                        AList.update (getHash K operation) i (opHashToInfo this)\<rparr>) p i
                  then map_of (nextVersion this)
                  else (map_of (nextVersion this))(p \<mapsto> getHash K operation))"
proof (cases "opInfoOf operation")
  case None
  then show ?thesis using missing by (simp add: apply_op_None)
next
  case (Some i)
  show ?thesis
  proof (cases "superseded this (getHash K operation) i")
    case True
    then show ?thesis using discarded Some by (simp add: apply_op_superseded)
  next
    case False
    from apply_op_stored[OF Some c False] show ?thesis using stored[OF Some False] by force
  qed
qed

lemma chain_source_applyAll:
  "map_of (nextVersion (applyAll K newDidCache ops)) p = Some n \<Longrightarrow>
   \<exists>operation \<in> set ops. opInfoOf operation \<noteq> None \<and> getHash K operation = n \<and>
      chainPrev operation = Some p"
proof (induction ops arbitrary: p n rule: rev_induct)
  case Nil
  then show ?case by (simp add: applyAll_Nil newDidCache_def)
next
  case (snoc operation ops)
  let ?st = "applyAll K newDidCache ops"
  have c: "nextClosed ?st" by (simp add: nextClosed_applyAll nextClosed_new)
  from c show ?case
  proof (cases rule: apply_op_cases[where K = K and operation = operation])
    case missing
    then show ?thesis using snoc by (auto simp: applyAll_snoc)
  next
    case (discarded i)
    then show ?thesis using snoc by (auto simp: applyAll_snoc)
  next
    case (stored i)
    then show ?thesis using snoc.prems snoc.IH
      by (auto simp: applyAll_snoc split: option.splits if_splits)
  qed
qed

lemma earliestStored_Some:
  assumes "map_of (opHashToInfo (applyAll K newDidCache ops)) h = Some info"
  shows "\<exists>operation \<in> set ops. getHash K operation = h \<and> opInfoOf operation = Some info"
  using earliestStored_applyAll[of K ops h] assms by (simp add: earliestStored_def)

lemma chain_min_applyAll:
  assumes "hashFixesPrev K ops"
    and "operation \<in> set ops" and "opInfoOf operation = Some j"
    and "chainPrev operation = Some p"
  shows "\<exists>n ni. map_of (nextVersion (applyAll K newDidCache ops)) p = Some n \<and>
           map_of (opHashToInfo (applyAll K newDidCache ops)) n = Some ni \<and>
           \<not> earlier (timestamp j) (timestamp ni)"
  using assms
proof (induction ops arbitrary: operation j p rule: rev_induct)
  case Nil
  then show ?case by simp
next
  case (snoc new ops)
  let ?st = "applyAll K newDidCache ops"
  let ?h = "getHash K new"
  have c: "nextClosed ?st" by (simp add: nextClosed_applyAll nextClosed_new)
  have f: "hashFixesPrev K ops" using snoc.prems(1) by (rule hashFixesPrev_butlast)
  note IH = snoc.IH[OF f]
  from c show ?case
  proof (cases rule: apply_op_cases[where K = K and operation = new])
    case missing
    then show ?thesis using snoc.prems IH by (auto simp: applyAll_snoc)
  next
    case (discarded i)
    show ?thesis
    proof (cases "operation = new")
      case False
      then show ?thesis using snoc.prems IH discarded by (auto simp: applyAll_snoc)
    next
      case True
      from discarded(2) obtain q where q: "map_of (opHashToInfo ?st) ?h = Some q"
        "earlier (timestamp q) (timestamp i)"
        by (auto simp: superseded_def split: option.splits)
      from earliestStored_Some[OF q(1)] obtain o' where o': "o' \<in> set ops"
        "getHash K o' = ?h" "opInfoOf o' = Some q" by blast
      have "chainPrev o' = chainPrev new"
        by (rule hashFixesPrevD[OF snoc.prems(1)]) (simp_all add: o' discarded(1))
      with True snoc.prems have "chainPrev o' = Some p" by simp
      from IH[OF o'(1) o'(3) this] obtain n ni where
        n: "map_of (nextVersion ?st) p = Some n" "map_of (opHashToInfo ?st) n = Some ni"
           "\<not> earlier (timestamp q) (timestamp ni)" by blast
      have "\<not> earlier (timestamp i) (timestamp ni)"
        using q(2) n(3) earlier_trans by blast
      then show ?thesis using n discarded True snoc.prems by (auto simp: applyAll_snoc)
    qed
  next
    case (stored i)
    let ?st1 = "?st\<lparr>opHashToInfo := AList.update ?h i (opHashToInfo ?st)\<rparr>"
    have old: "\<not> earlier (timestamp q) (timestamp i)"
      if "map_of (opHashToInfo ?st) ?h = Some q" for q
      using stored(2) that by (simp add: superseded_def)
    show ?thesis
    proof (cases "operation = new")
      case True
      then have ji: "j = i" and cp: "chainPrev new = Some p"
        using snoc.prems stored(1) by auto
      show ?thesis
      proof (cases "keepsCurrent ?st1 p i")
        case True
        then obtain cur ci where cur: "map_of (nextVersion ?st) p = Some cur"
          "map_of (opHashToInfo ?st1) cur = Some ci" "earlier (timestamp ci) (timestamp i)"
          by (auto simp: keepsCurrent_def split: option.splits)
        then show ?thesis using stored cp ji True
          by (auto simp: applyAll_snoc update_conv' dest: earlier_asym split: if_splits)
      next
        case False
        then show ?thesis using stored cp ji
          by (auto simp: applyAll_snoc earlier_irrefl)
      qed
    next
      case False
      then have mem: "operation \<in> set ops" using snoc.prems by simp
      from IH[OF mem snoc.prems(3) snoc.prems(4)] obtain n ni where
        n: "map_of (nextVersion ?st) p = Some n" "map_of (opHashToInfo ?st) n = Some ni"
           "\<not> earlier (timestamp j) (timestamp ni)" by blast
      have keep: "\<exists>ni'. map_of (opHashToInfo (snd (apply_op K ?st new))) n = Some ni' \<and>
                   \<not> earlier (timestamp j) (timestamp ni')"
        using n stored(3) old by (auto dest: not_earlier_trans)
      show ?thesis
      proof (cases "chainPrev new = Some p \<and> \<not> keepsCurrent ?st1 p i")
        case False
        then have "map_of (nextVersion (snd (apply_op K ?st new))) p = Some n"
          using stored(4) n by (auto split: option.splits)
        then show ?thesis using keep by (auto simp: applyAll_snoc)
      next
        case True
        then have nv: "map_of (nextVersion (snd (apply_op K ?st new))) p = Some ?h"
          using stored(4) by simp
        obtain c' where c': "map_of (opHashToInfo ?st1) n = Some c'"
          using n by (cases "n = ?h") (auto simp: update_conv')
        with True n have nk: "\<not> earlier (timestamp c') (timestamp i)"
          by (simp add: keepsCurrent_def)
        have "\<not> earlier (timestamp ni) (timestamp i)"
        proof (cases "n = ?h")
          case True
          then show ?thesis using old n by simp
        next
          case False
          then show ?thesis using c' nk n by (simp add: update_conv')
        qed
        with n(3) have "\<not> earlier (timestamp j) (timestamp i)" by (rule not_earlier_trans)
        then show ?thesis using nv stored(3) by (auto simp: applyAll_snoc)
      qed
    qed
  qed
qed

text \<open>
  C2. A \<open>WriteOperation\<close> is built from its buffer (\<open>WriteOperation.create\<close>), and its
  hash is a cryptographic hash of these bytes, so two operations with the same hash
  have the same previous version: this is \<open>hashFixesPrev\<close>. After any sequence of
  \<open>apply\<close> calls on a new cache, for every entry (\<open>prev\<close>, \<open>nxt\<close>) of \<open>nextVersion\<close>:
  \<open>nxt\<close> is a key of \<open>opHashToInfo\<close>, and an applied operation with hash \<open>nxt\<close> has
  \<open>previousOperationHash\<close> equal to \<open>prev\<close>. With \<open>hashFixesPrev\<close>, the entry stored for
  \<open>nxt\<close> is the \<open>OperationInfo\<close> of an applied operation with hash \<open>nxt\<close> and previous
  version \<open>prev\<close>, and no applied operation with previous version \<open>prev\<close> has an
  earlier timestamp: the stored timestamp is the minimum among them.
\<close>

theorem fork_resolution_invariant:
  assumes "map_of (nextVersion (applyAll K newDidCache ops)) prev = Some nxt"
  shows "\<exists>info. map_of (opHashToInfo (applyAll K newDidCache ops)) nxt = Some info \<and>
     (\<exists>operation \<in> set ops. getHash K operation = nxt \<and> hasMetadata operation \<and>
        previousOperationHash operation = Some prev) \<and>
     (hashFixesPrev K ops \<longrightarrow>
        (\<exists>operation \<in> set ops. getHash K operation = nxt \<and>
           previousOperationHash operation = Some prev \<and> opInfoOf operation = Some info) \<and>
        (\<forall>operation \<in> set ops. \<forall>j.
           previousOperationHash operation = Some prev \<and> opInfoOf operation = Some j \<longrightarrow>
           \<not> earlier (timestamp j) (timestamp info)))"
proof -
  let ?st = "applyAll K newDidCache ops"
  have c: "nextClosed ?st" by (simp add: nextClosed_applyAll nextClosed_new)
  from nextClosed_map_of[OF c assms] obtain info where
    info: "map_of (opHashToInfo ?st) nxt = Some info" by blast
  from chain_source_applyAll[OF assms] obtain o0 where
    o0: "o0 \<in> set ops" "opInfoOf o0 \<noteq> None" "getHash K o0 = nxt" "chainPrev o0 = Some prev"
    by blast
  then have pne: "prev \<noteq> []" and p0: "previousOperationHash o0 = Some prev"
    by (simp_all add: chainPrev_Some)
  have src: "\<exists>operation \<in> set ops. getHash K operation = nxt \<and> hasMetadata operation \<and>
        previousOperationHash operation = Some prev"
    using o0 p0 by (auto simp: opInfoOf_hasMetadata)
  have att: "\<exists>operation \<in> set ops. getHash K operation = nxt \<and>
           previousOperationHash operation = Some prev \<and> opInfoOf operation = Some info"
    if f: "hashFixesPrev K ops"
  proof -
    from earliestStored_Some[OF info] obtain o1 where
      o1: "o1 \<in> set ops" "getHash K o1 = nxt" "opInfoOf o1 = Some info" by blast
    have "chainPrev o1 = chainPrev o0"
      by (rule hashFixesPrevD[OF f]) (simp_all add: o0 o1)
    then show ?thesis using o1 o0 by (auto simp: chainPrev_Some)
  qed
  have low: "\<not> earlier (timestamp j) (timestamp info)"
    if f: "hashFixesPrev K ops" and m: "operation \<in> set ops"
      and pr: "previousOperationHash operation = Some prev"
      and j: "opInfoOf operation = Some j"
    for operation j
  proof -
    have "chainPrev operation = Some prev" using pr pne by (simp add: chainPrev_Some)
    from chain_min_applyAll[OF f m j this] assms info show ?thesis by auto
  qed
  show ?thesis using info src att low by blast
qed


theorem fork_resolution_invariant_witness:
  "map_of (nextVersion (applyAll plainCrypto newDidCache [genesis, update1, update2])) ''C'' =
     Some ''U1'' \<and>
   hashFixesPrev plainCrypto [genesis, update1, update2] \<and>
   map_of (opHashToInfo (applyAll plainCrypto newDidCache [genesis, update1, update2])) ''U1'' =
     opInfoOf update1 \<and>
   previousOperationHash update2 = Some ''C'' \<and>
   (\<exists>j info. opInfoOf update2 = Some j \<and> opInfoOf update1 = Some info \<and>
      \<not> earlier (timestamp j) (timestamp info))"
proof -
  let ?ops = "[genesis, update1, update2]"
  let ?i1 = "\<lparr>batchFileHash = ''bf'', type = Update,
              timestamp = \<lparr>blockNumber = 1, transactionNumber = 10, operationIndex = 0\<rparr>\<rparr>"
  let ?i2 = "\<lparr>batchFileHash = ''bf'', type = Update,
              timestamp = \<lparr>blockNumber = 1, transactionNumber = 10, operationIndex = 1\<rparr>\<rparr>"
  have n: "map_of (nextVersion (applyAll plainCrypto newDidCache ?ops)) ''C'' = Some ''U1''"
    by (simp add: cache_eval genesis_def update1_def update2_def)
  have f: "hashFixesPrev plainCrypto ?ops"
    by (simp add: hashFixesPrev_def getHash_def plainCrypto_def anchoredOp_def Buffer_from_def
        genesis_def update1_def update2_def)
  have s: "map_of (opHashToInfo (applyAll plainCrypto newDidCache ?ops)) ''U1'' = Some ?i1"
    by (simp add: cache_eval genesis_def update1_def update2_def)
  have i: "opInfoOf update1 = Some ?i1" "opInfoOf update2 = Some ?i2"
    "previousOperationHash update2 = Some ''C''"
    by (simp_all add: opInfoOf_def anchoredOp_def update1_def update2_def)
  from fork_resolution_invariant[OF n] f s
  have "\<forall>operation \<in> set ?ops. \<forall>j.
           previousOperationHash operation = Some ''C'' \<and> opInfoOf operation = Some j \<longrightarrow>
           \<not> earlier (timestamp j) (timestamp ?i1)"
    by auto
  then have "\<not> earlier (timestamp ?i2) (timestamp ?i1)" using i by simp
  with n f s i show ?thesis by simp
qed

section \<open>Re-applying an operation\<close>

lemma apply_op_idem:
  assumes i: "opInfoOf operation = Some i"
    and st: "map_of (opHashToInfo this) (getHash K operation) = Some i"
    and ch: "case chainPrev operation of
               None \<Rightarrow> True
             | Some p \<Rightarrow> map_of (nextVersion this) p = Some (getHash K operation) \<or>
                          keepsCurrent this p i"
  shows "apply_op K this operation = (Inr (Some (getHash K operation)), this)"
proof -
  let ?h = "getHash K operation"
  have ns: "\<not> superseded this ?h i" using st by (simp add: superseded_def earlier_irrefl)
  have u: "this\<lparr>opHashToInfo := AList.update ?h i (opHashToInfo this)\<rparr> = this"
    using st by (simp add: update_triv)
  show ?thesis
  proof (cases "chainPrev operation")
    case None
    then show ?thesis using i ns u by (simp add: apply_op_Some)
  next
    case (Some p)
    have "applyVersionChainUpdates this ?h i p = (Inr (), this)"
      using ch Some st
      by (auto simp: applyVersionChainUpdates_def keepsCurrent_def earlier_irrefl update_triv
          split: option.splits)
    then show ?thesis using i ns u Some by (simp add: apply_op_Some)
  qed
qed

lemma apply_op_returns_hash:
  assumes "apply_op K this operation = (Inr (Some h), this')"
  shows "\<exists>i. opInfoOf operation = Some i \<and> h = getHash K operation \<and>
           map_of (opHashToInfo this') h = Some i \<and>
           (case chainPrev operation of
               None \<Rightarrow> True
             | Some p \<Rightarrow> map_of (nextVersion this') p = Some h \<or> keepsCurrent this' p i)"
proof (cases "opInfoOf operation")
  case None
  then have "\<not> hasMetadata operation" by (simp add: opInfoOf_hasMetadata)
  from apply_op_missing[OF this, of K this] assms show ?thesis by auto
next
  case (Some i)
  let ?h = "getHash K operation"
  let ?this1 = "this\<lparr>opHashToInfo := AList.update ?h i (opHashToInfo this)\<rparr>"
  have ns: "\<not> superseded this ?h i" using assms Some by (auto simp: apply_op_Some)
  show ?thesis
  proof (cases "chainPrev operation")
    case None
    then show ?thesis using assms Some ns by (auto simp: apply_op_Some update_conv')
  next
    case (Some p)
    from assms \<open>opInfoOf operation = Some i\<close> ns Some
    have a: "applyVersionChainUpdates ?this1 ?h i p = (Inr (), this')" and h: "h = ?h"
      by (auto simp: apply_op_Some split: prod.splits sum.splits)
    from a have "opHashToInfo this' = opHashToInfo ?this1 \<and>
        (map_of (nextVersion this') p = Some ?h \<or> keepsCurrent this' p i)"
      by (auto simp: applyVersionChainUpdates_def keepsCurrent_def update_conv'
          split: option.splits if_splits)
    then show ?thesis using \<open>opInfoOf operation = Some i\<close> Some h
      by (auto simp: update_conv')
  qed
qed

text \<open>
  C10, as stated, fails. After \<open>sibling1\<close> and \<open>sibling2\<close> (two updates of \<open>C\<close> with the
  same timestamp), the hash \<open>U1\<close> is stored with the timestamp of \<open>sibling1'\<close>, which
  is \<open>sibling1\<close> with another batch file hash. Applying \<open>sibling1'\<close> returns \<open>U1\<close>, but
  the entry of \<open>U1\<close> in \<open>opHashToInfo\<close> changes (its batch file hash) and the entry of
  \<open>C\<close> in \<open>nextVersion\<close> changes from \<open>U2\<close> to \<open>U1\<close>.
\<close>

theorem reapply_counterexample:
  "map_of (opHashToInfo (applyAll plainCrypto newDidCache [sibling1, sibling2]))
     (getHash plainCrypto sibling1') =
     Some \<lparr>batchFileHash = ''bf'', type = Update,
           timestamp = \<lparr>blockNumber = 1, transactionNumber = 10, operationIndex = 0\<rparr>\<rparr> \<and>
   opInfoOf sibling1' =
     Some \<lparr>batchFileHash = ''bf2'', type = Update,
           timestamp = \<lparr>blockNumber = 1, transactionNumber = 10, operationIndex = 0\<rparr>\<rparr> \<and>
   fst (apply_op plainCrypto (applyAll plainCrypto newDidCache [sibling1, sibling2]) sibling1') =
     Inr (Some (getHash plainCrypto sibling1')) \<and>
   map_of (opHashToInfo (snd (apply_op plainCrypto
       (applyAll plainCrypto newDidCache [sibling1, sibling2]) sibling1')))
     (getHash plainCrypto sibling1') \<noteq>
     map_of (opHashToInfo (applyAll plainCrypto newDidCache [sibling1, sibling2]))
       (getHash plainCrypto sibling1') \<and>
   map_of (nextVersion (applyAll plainCrypto newDidCache [sibling1, sibling2])) ''C'' =
     Some ''U2'' \<and>
   map_of (nextVersion (snd (apply_op plainCrypto
       (applyAll plainCrypto newDidCache [sibling1, sibling2]) sibling1'))) ''C'' = Some ''U1''"
  by (simp add: cache_eval sibling1_def sibling2_def sibling1'_def)

text \<open>
  C10, amended. In every cache state, if the hash of the operation is stored with the
  very \<open>OperationInfo\<close> that \<open>apply\<close> builds from the operation (batch file hash, type and
  timestamp), and the operation either has no previous version or the next version of
  its previous version is already that hash or a version stored with a strictly earlier
  timestamp, then \<open>apply\<close> returns the hash and leaves the cache as it is. In particular
  an \<open>apply\<close> that returned the hash, repeated at once with the same operation, returns
  the hash again and changes nothing.
\<close>

theorem reapply_idempotent:
  "(opInfoOf operation = Some i \<and>
    map_of (opHashToInfo this) (getHash K operation) = Some i \<and>
    (case chainPrev operation of
       None \<Rightarrow> True
     | Some p \<Rightarrow> map_of (nextVersion this) p = Some (getHash K operation) \<or>
                  keepsCurrent this p i)
    \<longrightarrow> apply_op K this operation = (Inr (Some (getHash K operation)), this))
   \<and> (apply_op K this operation = (Inr (Some h), this') \<longrightarrow>
        apply_op K this' operation = (Inr (Some h), this'))"
proof -
  have "apply_op K this' operation = (Inr (Some h), this')"
    if "apply_op K this operation = (Inr (Some h), this')"
  proof -
    from apply_op_returns_hash[OF that] obtain i where
      "opInfoOf operation = Some i" "h = getHash K operation"
      "map_of (opHashToInfo this') (getHash K operation) = Some i"
      "case chainPrev operation of
               None \<Rightarrow> True
             | Some p \<Rightarrow> map_of (nextVersion this') p = Some (getHash K operation) \<or>
                          keepsCurrent this' p i"
      by auto
    then show ?thesis using apply_op_idem[of operation i this' K] by simp
  qed
  then show ?thesis using apply_op_idem[of operation i this K] by blast
qed

theorem reapply_idempotent_witness:
  "opInfoOf sibling2 =
     Some \<lparr>batchFileHash = ''bf'', type = Update,
           timestamp = \<lparr>blockNumber = 1, transactionNumber = 10, operationIndex = 0\<rparr>\<rparr> \<and>
   map_of (opHashToInfo (applyAll plainCrypto newDidCache [sibling1, sibling2]))
     (getHash plainCrypto sibling2) = opInfoOf sibling2 \<and>
   chainPrev sibling2 = Some ''C'' \<and>
   map_of (nextVersion (applyAll plainCrypto newDidCache [sibling1, sibling2])) ''C'' =
     Some (getHash plainCrypto sibling2) \<and>
   apply_op plainCrypto (applyAll plainCrypto newDidCache [sibling1, sibling2]) sibling2 =
     (Inr (Some (getHash plainCrypto sibling2)),
      applyAll plainCrypto newDidCache [sibling1, sibling2]) \<and>
   apply_op plainCrypto newDidCache sibling1 =
     (Inr (Some ''U1''), applyAll plainCrypto newDidCache [sibling1]) \<and>
   apply_op plainCrypto (applyAll plainCrypto newDidCache [sibling1]) sibling1 =
     (Inr (Some ''U1''), applyAll plainCrypto newDidCache [sibling1])"
proof -
  let ?i = "\<lparr>batchFileHash = ''bf'', type = Update,
             timestamp = \<lparr>blockNumber = 1, transactionNumber = 10, operationIndex = 0\<rparr>\<rparr>"
  let ?st = "applyAll plainCrypto newDidCache [sibling1, sibling2]"
  have i: "opInfoOf sibling2 = Some ?i"
    by (simp add: opInfoOf_def sibling2_def anchoredOp_def)
  have s: "map_of (opHashToInfo ?st) (getHash plainCrypto sibling2) = Some ?i"
    by (simp add: cache_eval sibling1_def sibling2_def)
  have c: "chainPrev sibling2 = Some ''C''"
    by (simp add: chainPrev_def sibling2_def anchoredOp_def)
  have n: "map_of (nextVersion ?st) ''C'' = Some (getHash plainCrypto sibling2)"
    by (simp add: cache_eval sibling1_def sibling2_def)
  from reapply_idempotent[where operation = sibling2 and i = ?i and this = ?st
      and K = plainCrypto] i s c n
  have a: "apply_op plainCrypto ?st sibling2 = (Inr (Some (getHash plainCrypto sibling2)), ?st)"
    by simp
  have f: "apply_op plainCrypto newDidCache sibling1 =
     (Inr (Some ''U1''), applyAll plainCrypto newDidCache [sibling1])"
    by (simp add: cache_eval sibling1_def)
  from reapply_idempotent[where operation = sibling1 and this = newDidCache
      and K = plainCrypto and h = "''U1''"
      and this' = "applyAll plainCrypto newDidCache [sibling1]"] f
  have b: "apply_op plainCrypto (applyAll plainCrypto newDidCache [sibling1]) sibling1 =
     (Inr (Some ''U1''), applyAll plainCrypto newDidCache [sibling1])"
    by blast
  from i s c n a f b show ?thesis by simp
qed


section \<open>Rollback\<close>

text \<open>
  C3. The claim: after \<open>rollback(T)\<close> no entry of \<open>nextVersion\<close> points to an operation
  with transaction number at least \<open>T\<close>. The code, on the cache built from a create
  operation \<open>C\<close>, its updates \<open>U1\<close> and \<open>U2\<close> of transaction 10 and the update \<open>U3\<close> of
  \<open>U1\<close> of transaction 12: \<open>rollback(11)\<close> removes \<open>U3\<close> from \<open>opHashToInfo\<close> and
  leaves the entry from \<open>U1\<close> to \<open>U3\<close> in \<open>nextVersion\<close>. The callback of the first
  loop receives the value before the key, so it tests the transaction number of the
  key of each entry and deletes the entry whose key is the value.
\<close>

theorem rollback_keeps_next_of_pruned:
  "rollback (applyAll plainCrypto newDidCache [genesis, update1, update2, update3]) 11 =
     (Inr (),
      \<lparr>nextVersion = [(''C'', ''U1''), (''U1'', ''U3'')],
       opHashToInfo =
         [(''C'', \<lparr>batchFileHash = ''bf'', type = Create,
                  timestamp = \<lparr>blockNumber = 1, transactionNumber = 1,
                                operationIndex = 0\<rparr>\<rparr>),
          (''U1'', \<lparr>batchFileHash = ''bf'', type = Update,
                   timestamp = \<lparr>blockNumber = 1, transactionNumber = 10,
                                 operationIndex = 0\<rparr>\<rparr>),
          (''U2'', \<lparr>batchFileHash = ''bf'', type = Update,
                   timestamp = \<lparr>blockNumber = 1, transactionNumber = 10,
                                 operationIndex = 1\<rparr>\<rparr>)]\<rparr>) \<and>
   getHash plainCrypto update3 = ''U3'' \<and>
   WriteOperation.transactionNumber update3 = Some 12"
  by (simp add: cache_eval rollback_def genesis_def update1_def update2_def update3_def)

text \<open>
  When the previous version of an applied operation was never applied, the first loop
  reads the timestamp of \<open>undefined\<close>: \<open>rollback\<close> throws and prunes nothing.
\<close>

lemma rollback_throws_on_unknown_predecessor:
  "rollback (applyAll plainCrypto newDidCache [orphanUpdate]) 1 =
     (Inl (TypeError ''timestamp of undefined''),
      applyAll plainCrypto newDidCache [orphanUpdate])"
  by (simp add: cache_eval rollback_def orphanUpdate_def)

text \<open>
  C4. The claim: after a sequence of operations applied in non-decreasing order,
  \<open>rollback(T)\<close> followed by the pruned operations in their order gives back the
  cache of before. The code, on \<open>W\<close> (update of \<open>V\<close>, transaction 5), \<open>K\<close> (create,
  transaction 10), \<open>V\<close> (update of \<open>K\<close>, transaction 11): \<open>rollback(10)\<close> returns, and
  while it visits the entry from \<open>K\<close> to \<open>V\<close> it deletes the entry of key \<open>V\<close>, which
  points to \<open>W\<close> of transaction 5. Applying the pruned \<open>K\<close> and \<open>V\<close> again does not
  bring that entry back.
\<close>

theorem rollback_reapply_loses_entry:
  "nonDecreasing [earlyChild, lateRoot, lateParent] \<and>
   prunedOps 10 [earlyChild, lateRoot, lateParent] = [lateRoot, lateParent] \<and>
   fst (rollback (applyAll plainCrypto newDidCache [earlyChild, lateRoot, lateParent]) 10) =
     Inr () \<and>
   map_of (nextVersion (applyAll plainCrypto newDidCache [earlyChild, lateRoot, lateParent]))
     ''V'' = Some ''W'' \<and>
   map_of (nextVersion
     (applyAll plainCrypto
        (snd (rollback (applyAll plainCrypto newDidCache [earlyChild, lateRoot, lateParent]) 10))
        (prunedOps 10 [earlyChild, lateRoot, lateParent]))) ''V'' = None"
  by (simp add: cache_eval rollback_def nonDecreasing_def prunedOps_def
      earlyChild_def lateRoot_def lateParent_def)

section \<open>Hashing and traversal\<close>

lemma getHash_content:
  "getHash K operation =
     Base58_encode K (Multihash_hash K
       (if WriteOperation.type operation = Create then Buffer_from (encodedPayload operation)
        else operationBuffer operation) 18)"
  by (simp add: getHash_def)

text \<open>
  C8. The claim: the multihash code of the operation hash is the one that the protocol
  table gives for the block number of the operation. The code: \<open>getHash\<close> hashes the
  encoded payload of a create operation and the whole buffer of any other operation,
  always with code 18. For an update anchored in block 2000, under a table that
  selects code 22 from block 1000 on, the hash is the one of code 18 and differs from
  the one of code 22.
\<close>

theorem getHash_ignores_protocol:
  "WriteOperation.blockNumber lateUpdate = Some 2000 \<and>
   hashAlgorithmCode (laterProtocol 2000) = 22 \<and>
   getHash taggedCrypto lateUpdate =
     Base58_encode taggedCrypto (Multihash_hash taggedCrypto (operationBuffer lateUpdate) 18) \<and>
   getHash taggedCrypto lateUpdate \<noteq>
     Base58_encode taggedCrypto
       (Multihash_hash taggedCrypto (operationBuffer lateUpdate)
          (hashAlgorithmCode (laterProtocol 2000)))"
  by (simp add: getHash_def taggedCrypto_def laterProtocol_def lateUpdate_def anchoredOp_def)

lemmas traversal_eval =
  first_def previous_def getOperation_def getOperationBuffer_def exampleCas_def

text \<open>
  C9. The claim: the version that \<open>first\<close> returns for a known version is a key of
  \<open>opHashToInfo\<close>. The code, on the cache that holds only \<open>U\<close>, an update of the version
  \<open>C\<close> that was never applied: \<open>first(U)\<close> follows \<open>previous\<close> to \<open>C\<close>, \<open>previous(C)\<close> is
  \<open>undefined\<close> because \<open>C\<close> is unknown, and \<open>first\<close> returns \<open>C\<close>, which is not a key of
  \<open>opHashToInfo\<close>.
\<close>

theorem first_returns_unknown_version:
  "map_of (opHashToInfo (applyAll plainCrypto newDidCache [orphanUpdate])) ''U'' \<noteq> None \<and>
   first exampleCas (applyAll plainCrypto newDidCache [orphanUpdate]) ''U'' =
     Some (Inr (Some ''C'')) \<and>
   map_of (opHashToInfo (applyAll plainCrypto newDidCache [orphanUpdate])) ''C'' = None"
  apply (simp add: cache_eval orphanUpdate_def first_def)
  apply (subst first_loop.simps)
  apply (simp add: traversal_eval)
  apply (subst first_loop.simps)
  apply (simp add: traversal_eval)
  done

section \<open>Properties of the Rooter\<close>

lemma suspended_eq: "suspended this added = this\<lparr>operations := operations this @ added\<rparr>"
  by (induction added arbitrary: this rule: rev_induct) (simp_all add: suspended_def add_def)

lemma getBatch_loop_drains:
  "count \<le> batchSize \<Longrightarrow> length batch = batchSize \<Longrightarrow> batchSize - count \<le> length ops \<Longrightarrow>
   getBatch_loop count batchSize batch ops =
     (take count batch @ map Some (take (batchSize - count) ops),
      drop (batchSize - count) ops)"
proof (induction count batchSize batch ops rule: getBatch_loop.induct)
  case (1 count batchSize batch ops)
  show ?case
  proof (cases "count < batchSize")
    case False
    then show ?thesis using "1.prems" by (subst getBatch_loop.simps) simp
  next
    case True
    then obtain x xs where ops: "ops = x # xs" using "1.prems" by (cases ops) auto
    have sh: "shift ops = (Some x, xs)" by (simp add: shift_def ops)
    have "getBatch_loop (count + 1) batchSize (batch[count := Some x]) xs =
      (take (count + 1) (batch[count := Some x]) @ map Some (take (batchSize - (count + 1)) xs),
       drop (batchSize - (count + 1)) xs)"
      using "1.IH"[OF True sh[symmetric]] True "1.prems" ops by simp
    moreover have "take (count + 1) (batch[count := Some x]) = take count batch @ [Some x]"
      using True "1.prems" by (simp add: take_Suc_conv_app_nth)
    moreover have "batchSize - count = Suc (batchSize - (count + 1))" using True by simp
    ultimately show ?thesis using True sh ops
      by (subst getBatch_loop.simps) simp
  qed
qed

lemma getBatch_loop_from_start:
  "n \<le> length q \<Longrightarrow>
   getBatch_loop 0 n (replicate n None) q = (map Some (take n q), drop n q)"
  using getBatch_loop_drains[of 0 n "replicate n None" q] by simp

lemma getBatch_drains:
  assumes "getLastBlock W = Inr bn"
  shows "getBatch E W this =
     (Inr (map Some (take (min (length (operations this @ addedDuringGetLastBlock W))
                               (maxOperationsPerBatch (getProtocol E (numberPlusOne bn))))
                          (operations this @ addedDuringGetLastBlock W))),
      this\<lparr>operations :=
             drop (min (length (operations this @ addedDuringGetLastBlock W))
                       (maxOperationsPerBatch (getProtocol E (numberPlusOne bn))))
                  (operations this @ addedDuringGetLastBlock W)\<rparr>)"
proof -
  define q where "q = operations this @ addedDuringGetLastBlock W"
  define m where "m = maxOperationsPerBatch (getProtocol E (numberPlusOne bn))"
  have n: "(if length q > m then m else length q) = min (length q) m" by simp
  have "getBatch E W this =
     (case getBatch_loop 0 (min (length q) m) (replicate (min (length q) m) None) q of
        (batch', ops') \<Rightarrow> (Inr batch', this\<lparr>operations := ops'\<rparr>))"
    using assms unfolding getBatch_def Let_def suspended_eq
    by (simp add: q_def[symmetric] m_def[symmetric] n del: take_append drop_append)
  also have "\<dots> = (Inr (map Some (take (min (length q) m) q)),
                    this\<lparr>operations := drop (min (length q) m) q\<rparr>)"
    by (simp add: getBatch_loop_from_start)
  finally show ?thesis unfolding q_def m_def .
qed

lemmas rooter_eval =
  rootOperations_def rootOperations_try_def getBatch_def suspended_def add_def shift_def
  exampleEnv_def casDown_def threeQueued_def Buffer_from_def Let_def numberPlusOne_def

lemma numberPlusOne_exact:
  "- (2 ^ 53) \<le> n \<Longrightarrow> n < 2 ^ 53 \<Longrightarrow> numberPlusOne n = n + 1"
  by (simp add: numberPlusOne_def)

lemma numberPlusOne_rounds: "numberPlusOne (2 ^ 53) = 2 ^ 53"
  by (simp add: numberPlusOne_def)

text \<open>
  C5. When the ledger answers with the latest block, the batch that \<open>getBatch\<close>
  assembles has exactly min(queue length, P.maxOperationsPerBatch) elements, where the
  queue is the one at the time of the drain (the queue at the start of the tick and
  what was added while the ledger was queried) and P is \<open>getProtocol\<close> of
  \<open>latestBlock.blockNumber + 1\<close>, the sum as the source computes it; the sum is the
  exact one for every block number from \<open>-2^53\<close> up to \<open>2^53 - 1\<close>. The i-th element of
  the batch is the i-th oldest operation of the queue, and these operations are
  removed from the head of the queue.
\<close>

theorem getBatch_cap_fifo:
  assumes "getLastBlock W = Inr latestBlockNumber"
  shows "\<exists>batch this'. getBatch E W this = (Inr batch, this') \<and>
      length batch =
        min (length (operations this @ addedDuringGetLastBlock W))
            (maxOperationsPerBatch (getProtocol E (numberPlusOne latestBlockNumber))) \<and>
      (\<forall>i < length batch.
         batch ! i = Some ((operations this @ addedDuringGetLastBlock W) ! i)) \<and>
      operations this' = drop (length batch) (operations this @ addedDuringGetLastBlock W) \<and>
      processing this' = processing this \<and>
      (- (2 ^ 53) \<le> latestBlockNumber \<and> latestBlockNumber < 2 ^ 53 \<longrightarrow>
         numberPlusOne latestBlockNumber = latestBlockNumber + 1)"
proof -
  define q where "q = operations this @ addedDuringGetLastBlock W"
  define n where
    "n = min (length q) (maxOperationsPerBatch (getProtocol E (numberPlusOne latestBlockNumber)))"
  have g: "getBatch E W this = (Inr (map Some (take n q)), this\<lparr>operations := drop n q\<rparr>)"
    unfolding q_def n_def by (rule getBatch_drains[OF assms])
  have l: "length (map Some (take n q)) = n" by (simp add: n_def)
  have e: "\<forall>i < n. map Some (take n q) ! i = Some (q ! i)" by (simp add: n_def)
  show ?thesis
    unfolding q_def[symmetric] n_def[symmetric] using g l e
    by (simp add: numberPlusOne_exact)
qed

theorem getBatch_cap_fifo_witness:
  "getLastBlock casDown = Inr 7 \<and>
   getBatch exampleEnv casDown threeQueued =
     (Inr [Some ''a'', Some ''b''], \<lparr>operations = [''c'', ''d''], processing = False\<rparr>) \<and>
   length [Some ''a'', Some ''b''] =
     min (length (operations threeQueued @ addedDuringGetLastBlock casDown))
         (maxOperationsPerBatch (getProtocol exampleEnv (numberPlusOne 7))) \<and>
   - (2 ^ 53) \<le> (7::int) \<and> (7::int) < 2 ^ 53 \<and> numberPlusOne 7 = 8"
proof -
  have h: "getLastBlock casDown = Inr 7" by (simp add: casDown_def)
  have b: "- (2 ^ 53) \<le> (7::int) \<and> (7::int) < 2 ^ 53" by simp
  from getBatch_cap_fifo[OF h, of exampleEnv threeQueued] b
  have p: "numberPlusOne 7 = 8" by auto
  have g: "getBatch exampleEnv casDown threeQueued =
     (Inr [Some ''a'', Some ''b''], \<lparr>operations = [''c'', ''d''], processing = False\<rparr>)"
    by (simp add: rooter_eval getBatch_loop.simps numeral_2_eq_2)
  from getBatch_cap_fifo[OF h, of exampleEnv threeQueued] g
  have "length [Some ''a'', Some ''b''] =
     min (length (operations threeQueued @ addedDuringGetLastBlock casDown))
         (maxOperationsPerBatch (getProtocol exampleEnv (numberPlusOne 7)))"
    by auto
  with h g b p show ?thesis by simp
qed

lemma rootOperations_no_throw: "fst (rootOperations E W this) = Inr ()"
  by (simp add: rootOperations_def split: prod.splits sum.splits)

lemma rootOperations_releases:
  "\<not> processing this \<Longrightarrow> \<not> processing (snd (rootOperations E W this))"
  by (simp add: rootOperations_def split: prod.splits)

lemma rootOperations_try_queue:
  assumes "getLastBlock W = Inr bn"
  shows "\<exists>later \<in> {[], addedDuringBatchWrite W,
                    addedDuringBatchWrite W @ addedDuringAnchorWrite W,
                    addedDuringBatchWrite W @ addedDuringAnchorWrite W @
                      addedDuringLedgerWrite W}.
           operations (snd (rootOperations_try E W this)) =
             drop (min (length (operations this @ addedDuringGetLastBlock W))
                       (maxOperationsPerBatch (getProtocol E (numberPlusOne bn))))
                  (operations this @ addedDuringGetLastBlock W) @ later"
proof -
  define q where "q = operations this @ addedDuringGetLastBlock W"
  define n where "n = min (length q) (maxOperationsPerBatch (getProtocol E (numberPlusOne bn)))"
  have q': "operations (this\<lparr>processing := True\<rparr>) @ addedDuringGetLastBlock W = q"
    by (simp add: q_def)
  have g: "getBatch E W (this\<lparr>processing := True\<rparr>) =
             (Inr (map Some (take n q)), this\<lparr>processing := True, operations := drop n q\<rparr>)"
    using getBatch_drains[OF assms, of E "this\<lparr>processing := True\<rparr>"]
    unfolding q' n_def[symmetric] by simp
  show ?thesis
    unfolding q_def[symmetric] n_def[symmetric] rootOperations_try_def Let_def g
    by (simp add: suspended_eq split: sum.splits)
qed

text \<open>
  C6. A tick never throws: whatever the ledger and the CAS answer, \<open>rootOperations\<close>
  returns normally. A tick that starts with the flag \<open>processing\<close> false ends with it
  false, on success, on an empty batch and on failure. When the ledger gave the latest
  block, the queue after the tick is the queue at the time of the drain without the
  drained head (the batch of \<open>getBatch\<close>, of min(queue length, P.maxOperationsPerBatch)
  operations with P the \<open>getProtocol\<close> of \<open>latestBlock.blockNumber + 1\<close> as the source
  computes the sum), followed by what was added during the later calls that the tick
  reached: whether a CAS write or the ledger write fails or not, the drained
  operations are not put back.
\<close>

theorem tick_failure_policy:
  "fst (rootOperations E W this) = Inr () \<and>
   (\<not> processing this \<longrightarrow> \<not> processing (snd (rootOperations E W this))) \<and>
   (\<not> processing this \<and> getLastBlock W = Inr latestBlockNumber \<longrightarrow>
      (\<exists>batch this2.
         getBatch E W (this\<lparr>processing := True\<rparr>) = (Inr batch, this2) \<and>
         length batch =
           min (length (operations this @ addedDuringGetLastBlock W))
               (maxOperationsPerBatch (getProtocol E (numberPlusOne latestBlockNumber))) \<and>
         (\<exists>later \<in> {[], addedDuringBatchWrite W,
                    addedDuringBatchWrite W @ addedDuringAnchorWrite W,
                    addedDuringBatchWrite W @ addedDuringAnchorWrite W @
                      addedDuringLedgerWrite W}.
            operations (snd (rootOperations E W this)) =
              drop (length batch) (operations this @ addedDuringGetLastBlock W) @ later)))"
proof -
  have q: "\<exists>batch this2.
         getBatch E W (this\<lparr>processing := True\<rparr>) = (Inr batch, this2) \<and>
         length batch =
           min (length (operations this @ addedDuringGetLastBlock W))
               (maxOperationsPerBatch (getProtocol E (numberPlusOne latestBlockNumber))) \<and>
         (\<exists>later \<in> {[], addedDuringBatchWrite W,
                    addedDuringBatchWrite W @ addedDuringAnchorWrite W,
                    addedDuringBatchWrite W @ addedDuringAnchorWrite W @
                      addedDuringLedgerWrite W}.
            operations (snd (rootOperations E W this)) =
              drop (length batch) (operations this @ addedDuringGetLastBlock W) @ later)"
    if np: "\<not> processing this" and lb: "getLastBlock W = Inr latestBlockNumber"
  proof -
    define q where "q = operations this @ addedDuringGetLastBlock W"
    define n where
      "n = min (length q) (maxOperationsPerBatch (getProtocol E (numberPlusOne latestBlockNumber)))"
    have q': "operations (this\<lparr>processing := True\<rparr>) @ addedDuringGetLastBlock W = q"
      by (simp add: q_def)
    have g: "getBatch E W (this\<lparr>processing := True\<rparr>) =
               (Inr (map Some (take n q)),
                this\<lparr>processing := True, operations := drop n q\<rparr>)"
      using getBatch_drains[OF lb, of E "this\<lparr>processing := True\<rparr>"]
      unfolding q' n_def[symmetric] by simp
    have l: "length (map Some (take n q)) = n" by (simp add: n_def)
    have o: "operations (snd (rootOperations E W this)) =
               operations (snd (rootOperations_try E W this))"
      using np by (simp add: rootOperations_def split: prod.splits)
    from rootOperations_try_queue[OF lb, of E this]
    have "\<exists>later \<in> {[], addedDuringBatchWrite W,
                    addedDuringBatchWrite W @ addedDuringAnchorWrite W,
                    addedDuringBatchWrite W @ addedDuringAnchorWrite W @
                      addedDuringLedgerWrite W}.
            operations (snd (rootOperations E W this)) = drop n q @ later"
      unfolding o q_def n_def .
    with g l show ?thesis unfolding q_def[symmetric] n_def[symmetric] by auto
  qed
  show ?thesis
    using rootOperations_no_throw[of E W this] rootOperations_releases[of this E W] q
    by blast
qed

theorem tick_failure_policy_witness:
  "\<not> processing threeQueued \<and> getLastBlock casDown = Inr 7 \<and>
   cas_write_batch casDown ''ab'' = Inl (Error ''CAS unavailable'') \<and>
   rootOperations exampleEnv casDown threeQueued =
     (Inr (), \<lparr>operations = [''c'', ''d'', ''e''], processing = False\<rparr>) \<and>
   [''c'', ''d'', ''e''] =
     drop (min (length (operations threeQueued @ addedDuringGetLastBlock casDown))
               (maxOperationsPerBatch (getProtocol exampleEnv (numberPlusOne 7))))
          (operations threeQueued @ addedDuringGetLastBlock casDown) @
     addedDuringBatchWrite casDown"
proof -
  have h: "\<not> processing threeQueued \<and> getLastBlock casDown = Inr 7"
    by (simp add: casDown_def threeQueued_def)
  have r: "rootOperations exampleEnv casDown threeQueued =
     (Inr (), \<lparr>operations = [''c'', ''d'', ''e''], processing = False\<rparr>)"
    by (simp add: rooter_eval getBatch_loop.simps numeral_2_eq_2)
  from tick_failure_policy[where E = exampleEnv and W = casDown and this = threeQueued
      and latestBlockNumber = 7] h
  have "\<not> processing (snd (rootOperations exampleEnv casDown threeQueued))" by blast
  with h r show ?thesis by (simp add: rooter_eval)
qed

end
